theory Spec2Isabelle
  imports Main "HOL-Library.AList"
begin

section \<open>Python values used by \<open>sequence_labeling.py\<close>\<close>

text \<open>
  The exceptions the two prediction loops can raise by themselves: an index out of range
  and the use of a local variable before its first assignment.
\<close>

datatype error = IndexError | UnboundLocalError

text \<open>
  A slice bound \<open>i\<close> on a sequence of length \<open>n\<close>: a negative bound counts from the end,
  and the result is clipped to \<open>0..n\<close>.
\<close>

definition py_bound :: "nat \<Rightarrow> int \<Rightarrow> nat" where
  "py_bound n i = (if i < 0 then nat (max 0 (i + int n)) else min n (nat i))"

text \<open>\<open>xs[lo:hi]\<close>, and \<open>xs[lo:]\<close>; \<open>xs[:hi]\<close> is \<open>xs[0:hi]\<close>.\<close>

definition py_slice :: "'a list \<Rightarrow> int \<Rightarrow> int \<Rightarrow> 'a list" where
  "py_slice xs lo hi =
     (let n = length xs; l = py_bound n lo; h = py_bound n hi
      in take (h - l) (drop l xs))"

definition py_slice_from :: "'a list \<Rightarrow> int \<Rightarrow> 'a list" where
  "py_slice_from xs lo = py_slice xs lo (int (length xs))"

text \<open>\<open>xs[i]\<close>: a negative index counts from the end, out of range raises.\<close>

definition py_get :: "'a list \<Rightarrow> int \<Rightarrow> error + 'a" where
  "py_get xs i =
     (if 0 \<le> i \<and> i < int (length xs) then Inr (xs ! nat i)
      else if i < 0 \<and> - int (length xs) \<le> i then Inr (xs ! nat (i + int (length xs)))
      else Inl IndexError)"

text \<open>\<open>max_length or self.config.max_length\<close>: \<open>None\<close> and \<open>0\<close> are falsy.\<close>

definition py_or :: "int option \<Rightarrow> int \<Rightarrow> int" where
  "py_or max_length config_max_length =
     (case max_length of None \<Rightarrow> config_max_length
      | Some m \<Rightarrow> if m = 0 then config_max_length else m)"

text \<open>
  \<open>dict(zip(keys, values))\<close>: a later pair overwrites the value of an equal key,
  and the keys keep the order of their first insertion.
\<close>

definition py_dict :: "('k \<times> 'v) list \<Rightarrow> ('k \<times> 'v) list" where
  "py_dict kvs = fold (\<lambda>(k, v) d. AList.update k v d) kvs []"

section \<open>The encoded input\<close>

text \<open>
  \<open>arr_encoded\<close> is an \<open>ArrayEncodedOutput\<close>: parallel arrays with one row per chunk.
  The model keeps the rows of one chunk together, so the arrays have the same number of
  rows by construction. Of \<open>token_ids\<close> the code reads only
  \<open>token_ids[chunk_idx][0][0]\<close>, the id of the chunk's first token: that entry is the
  field \<open>first_token_id\<close>. A char location of \<open>-1\<close> marks padding and special tokens.
\<close>

record chunk =
  first_token_id :: int
  tokens :: "string list"
  char_locs :: "int list"

type_synonym ArrayEncodedOutput = "chunk list"

text \<open>
  \<open>start_of_doc\<close> and \<open>end_of_doc\<close> of chunk \<open>chunk_idx\<close> (lines 60-64 and 148-152);
  \<open>chunk_idx\<close> is always below the number of chunks, as the loop zips over them.
\<close>

definition start_of_doc :: "int \<Rightarrow> ArrayEncodedOutput \<Rightarrow> nat \<Rightarrow> bool" where
  "start_of_doc encoder_start arr_encoded chunk_idx =
     (first_token_id (arr_encoded ! chunk_idx) = encoder_start)"

definition end_of_doc :: "int \<Rightarrow> ArrayEncodedOutput \<Rightarrow> nat \<Rightarrow> bool" where
  "end_of_doc encoder_start arr_encoded chunk_idx =
     (chunk_idx + 1 \<ge> length arr_encoded \<or>
      first_token_id (arr_encoded ! (chunk_idx + 1)) = encoder_start)"

definition step_size :: "int \<Rightarrow> int" where
  "step_size max_length = (let chunk_size = max_length - 2 in chunk_size div 3)"

text \<open>
  The slicing of lines 70-85 (and 153-162), applied alike to both sequences of a chunk:
  the first chunk of a longer document keeps \<open>[:step*2]\<close>, the last chunk \<open>[step:]\<close>,
  a chunk in the middle \<open>[step:step*2]\<close>, the only chunk of a document everything.
\<close>

definition select_window :: "int \<Rightarrow> bool \<Rightarrow> bool \<Rightarrow> 'a list \<Rightarrow> 'a list" where
  "select_window step sod eod xs =
     (if sod then (if \<not> eod then py_slice xs 0 (step * 2) else xs)
      else if eod then py_slice_from xs step
      else py_slice xs step (step * 2))"

section \<open>\<open>SequenceLabeler.predict\<close>\<close>

text \<open>
  The per-document accumulator is \<open>(doc_subseqs, doc_labels, start_of_token)\<close>. Before
  the first start-of-document chunk \<open>doc_labels\<close> and \<open>start_of_token\<close> are unbound and
  \<open>doc_subseqs\<close> still names the list of line 45, which has one entry per text of \<open>X\<close>:
  that state is \<open>None\<close>. A token that is not padding then raises: with \<open>X\<close> empty
  \<open>X[doc_idx]\<close> fails, otherwise \<open>doc_labels[-1]\<close> is unbound.

  Lines 88-102, the body of the loop over the tokens of one window:
\<close>

type_synonym 'l doc_acc = "(string list \<times> 'l list \<times> int) option"

definition stitch_token ::
  "string list \<Rightarrow> int \<Rightarrow> 'l doc_acc \<Rightarrow> 'l \<times> int \<Rightarrow> error + 'l doc_acc" where
  "stitch_token X doc_idx acc t =
     (case t of (label, position) \<Rightarrow>
        if position = -1 then Inr acc
        else (case acc of
          None \<Rightarrow> Inl (if X = [] then IndexError else UnboundLocalError)
        | Some (doc_subseqs, doc_labels, start_of_token) \<Rightarrow>
            if doc_subseqs \<noteq> [] \<and> doc_labels = [] then Inl IndexError
            else (case py_get X doc_idx of
              Inl e \<Rightarrow> Inl e
            | Inr doc \<Rightarrow>
                if doc_subseqs = [] \<or> label \<noteq> last doc_labels
                then Inr (Some (doc_subseqs @ [py_slice doc start_of_token position],
                                doc_labels @ [label], position))
                else Inr (Some (butlast doc_subseqs @
                                  [last doc_subseqs @ py_slice doc start_of_token position],
                                doc_labels, position)))))"

text \<open>\<open>for label, position in zip(label_seq, position_seq)\<close>\<close>

fun stitch_tokens ::
  "string list \<Rightarrow> int \<Rightarrow> 'l doc_acc \<Rightarrow> ('l \<times> int) list \<Rightarrow> error + 'l doc_acc" where
  "stitch_tokens X doc_idx acc [] = Inr acc"
| "stitch_tokens X doc_idx acc (t # rest) =
     (case stitch_token X doc_idx acc t of
        Inl e \<Rightarrow> Inl e
      | Inr acc' \<Rightarrow> stitch_tokens X doc_idx acc' rest)"

text \<open>
  The state of the loop over the chunks:
  \<open>(all_subseqs, all_labels, doc_idx, accumulator)\<close>. One iteration (lines 70-107):
\<close>

type_synonym 'l predict_state = "string list list \<times> 'l list list \<times> int \<times> 'l doc_acc"

fun predict_chunk ::
  "string list \<Rightarrow> int \<Rightarrow> bool \<Rightarrow> bool \<Rightarrow> 'l list \<Rightarrow> int list \<Rightarrow> 'l predict_state
     \<Rightarrow> error + 'l predict_state" where
  "predict_chunk X step sod eod label_seq position_seq (all_subseqs, all_labels, doc_idx, acc) =
       (let acc1 = (if sod then Some ([], [], 0) else acc);
            doc_idx1 = (if sod then doc_idx + 1 else doc_idx);
            label_seq1 = select_window step sod eod label_seq;
            position_seq1 = select_window step sod eod position_seq
        in case stitch_tokens X doc_idx1 acc1 (zip label_seq1 position_seq1) of
             Inl e \<Rightarrow> Inl e
           | Inr acc2 \<Rightarrow>
               (if eod then
                  (case acc2 of
                     None \<Rightarrow> Inl UnboundLocalError
                   | Some (doc_subseqs, doc_labels, start_of_token) \<Rightarrow>
                       Inr (all_subseqs @ [doc_subseqs], all_labels @ [doc_labels],
                            doc_idx1, acc2))
                else Inr (all_subseqs, all_labels, doc_idx1, acc2)))"

text \<open>\<open>for chunk_idx, (label_seq, position_seq) in enumerate(zip(labels, char_locs))\<close>\<close>

fun predict_loop ::
  "string list \<Rightarrow> int \<Rightarrow> int \<Rightarrow> ArrayEncodedOutput \<Rightarrow> nat \<Rightarrow> ('l list \<times> int list) list
     \<Rightarrow> 'l predict_state \<Rightarrow> error + 'l predict_state" where
  "predict_loop X step encoder_start arr_encoded chunk_idx [] st = Inr st"
| "predict_loop X step encoder_start arr_encoded chunk_idx ((label_seq, position_seq) # rest) st =
     (case predict_chunk X step
             (start_of_doc encoder_start arr_encoded chunk_idx)
             (end_of_doc encoder_start arr_encoded chunk_idx)
             label_seq position_seq st of
        Inl e \<Rightarrow> Inl e
      | Inr st' \<Rightarrow> predict_loop X step encoder_start arr_encoded (Suc chunk_idx) rest st')"

text \<open>
  \<open>predict\<close>, up to the call of the external format adapter
  \<open>finetune_to_indico_sequence\<close>: the result is the pair \<open>(all_subseqs, all_labels)\<close>
  handed to it. The tokenizer's output \<open>arr_encoded\<close>, the decoder's output \<open>labels\<close>,
  the configured \<open>max_length\<close> and the encoder's start id are inputs.
\<close>

definition predict ::
  "string list \<Rightarrow> int option \<Rightarrow> int \<Rightarrow> int \<Rightarrow> ArrayEncodedOutput \<Rightarrow> 'l list list
     \<Rightarrow> error + (string list list \<times> 'l list list)" where
  "predict X max_length config_max_length encoder_start arr_encoded labels =
     (case predict_loop X (step_size (py_or max_length config_max_length)) encoder_start
             arr_encoded 0 (zip labels (map char_locs arr_encoded)) ([], [], -1, None) of
        Inl e \<Rightarrow> Inl e
      | Inr (all_subseqs, all_labels, doc_idx, acc) \<Rightarrow> Inr (all_subseqs, all_labels))"

section \<open>\<open>SequenceLabeler.predict_proba\<close>\<close>

text \<open>
  Lines 164-168: every token of the window is appended with its distribution;
  \<open>seq_result\<close> is unbound (\<open>None\<close>) before the first start-of-document chunk.
\<close>

type_synonym ('c, 'p) seq_acc = "(string \<times> ('c \<times> 'p) list) list option"

definition proba_token ::
  "'c list \<Rightarrow> ('c, 'p) seq_acc \<Rightarrow> string \<times> 'p list \<Rightarrow> error + ('c, 'p) seq_acc" where
  "proba_token classes seq_result t =
     (case t of (token, proba_t) \<Rightarrow>
        (case seq_result of
           None \<Rightarrow> Inl UnboundLocalError
         | Some r \<Rightarrow> Inr (Some (r @ [(token, py_dict (zip classes proba_t))]))))"

text \<open>\<open>for token, proba_t in zip(token_seq, proba_seq)\<close>\<close>

fun proba_tokens ::
  "'c list \<Rightarrow> ('c, 'p) seq_acc \<Rightarrow> (string \<times> 'p list) list \<Rightarrow> error + ('c, 'p) seq_acc" where
  "proba_tokens classes seq_result [] = Inr seq_result"
| "proba_tokens classes seq_result (t # rest) =
     (case proba_token classes seq_result t of
        Inl e \<Rightarrow> Inl e
      | Inr seq_result' \<Rightarrow> proba_tokens classes seq_result' rest)"

type_synonym ('c, 'p) proba_state =
  "(string \<times> ('c \<times> 'p) list) list list \<times> ('c, 'p) seq_acc"

fun predict_proba_chunk ::
  "'c list \<Rightarrow> int \<Rightarrow> bool \<Rightarrow> bool \<Rightarrow> string list \<Rightarrow> 'p list list \<Rightarrow> ('c, 'p) proba_state
     \<Rightarrow> error + ('c, 'p) proba_state" where
  "predict_proba_chunk classes step sod eod token_seq proba_seq (result, seq_result) =
       (let seq_result1 = (if sod then Some [] else seq_result);
            token_seq1 = select_window step sod eod token_seq;
            proba_seq1 = select_window step sod eod proba_seq
        in case proba_tokens classes seq_result1 (zip token_seq1 proba_seq1) of
             Inl e \<Rightarrow> Inl e
           | Inr seq_result2 \<Rightarrow>
               (if eod then
                  (case seq_result2 of
                     None \<Rightarrow> Inl UnboundLocalError
                   | Some r \<Rightarrow> Inr (result @ [r], seq_result2))
                else Inr (result, seq_result2)))"

fun predict_proba_loop ::
  "'c list \<Rightarrow> int \<Rightarrow> int \<Rightarrow> ArrayEncodedOutput \<Rightarrow> nat \<Rightarrow> (string list \<times> 'p list list) list
     \<Rightarrow> ('c, 'p) proba_state \<Rightarrow> error + ('c, 'p) proba_state" where
  "predict_proba_loop classes step encoder_start arr_encoded chunk_idx [] st = Inr st"
| "predict_proba_loop classes step encoder_start arr_encoded chunk_idx
     ((token_seq, proba_seq) # rest) st =
     (case predict_proba_chunk classes step
             (start_of_doc encoder_start arr_encoded chunk_idx)
             (end_of_doc encoder_start arr_encoded chunk_idx)
             token_seq proba_seq st of
        Inl e \<Rightarrow> Inl e
      | Inr st' \<Rightarrow>
          predict_proba_loop classes step encoder_start arr_encoded (Suc chunk_idx) rest st')"

definition predict_proba ::
  "'c list \<Rightarrow> int option \<Rightarrow> int \<Rightarrow> int \<Rightarrow> ArrayEncodedOutput \<Rightarrow> 'p list list list
     \<Rightarrow> error + (string \<times> ('c \<times> 'p) list) list list" where
  "predict_proba classes max_length config_max_length encoder_start arr_encoded batch_probas =
     (case predict_proba_loop classes (step_size (py_or max_length config_max_length))
             encoder_start arr_encoded 0 (zip (map tokens arr_encoded) batch_probas)
             ([], None) of
        Inl e \<Rightarrow> Inl e
      | Inr (result, seq_result) \<Rightarrow> Inr result)"

section \<open>The decoder wrappers\<close>

text \<open>
  \<open>_predict_op\<close> and \<open>_predict_proba_op\<close> (lines 201-207). The decode primitive
  \<open>sequence_decode\<close> is external and is a parameter; \<open>kwargs\<close> is a dictionary and
  \<open>kwargs.get\<close> gives \<open>None\<close> for a missing key.
\<close>

definition predict_op ::
  "('g \<Rightarrow> 't option \<Rightarrow> 'i \<times> 'q) \<Rightarrow> 'g \<Rightarrow> (string \<rightharpoonup> 't) \<Rightarrow> 'i" where
  "predict_op sequence_decode logits kwargs =
     (case sequence_decode logits (kwargs ''transition_matrix'') of
        (label_idxs, _) \<Rightarrow> label_idxs)"

definition predict_proba_op ::
  "('g \<Rightarrow> 't option \<Rightarrow> 'i \<times> 'q) \<Rightarrow> 'g \<Rightarrow> (string \<rightharpoonup> 't) \<Rightarrow> 'q" where
  "predict_proba_op sequence_decode logits kwargs =
     (case sequence_decode logits (kwargs ''transition_matrix'') of
        (_, label_probas) \<Rightarrow> label_probas)"

section \<open>Documents as the loops see them\<close>

text \<open>
  The windows of the processed chunks, grouped by document: a start-of-document chunk
  opens a group with its window, any other chunk adds its window to the open group, and
  an end-of-document chunk closes the group. The chunks processed are those paired by
  the loop's \<open>zip\<close>, numbered from \<open>chunk_idx\<close>; \<open>cur\<close> is the open group.
\<close>

fun doc_windows ::
  "int \<Rightarrow> int \<Rightarrow> ArrayEncodedOutput \<Rightarrow> nat \<Rightarrow> ('a list \<times> 'b list) list \<Rightarrow> ('a \<times> 'b) list
     \<Rightarrow> ('a \<times> 'b) list list" where
  "doc_windows step encoder_start arr_encoded chunk_idx [] cur = []"
| "doc_windows step encoder_start arr_encoded chunk_idx ((seq1, seq2) # rest) cur =
     (let sod = start_of_doc encoder_start arr_encoded chunk_idx;
          eod = end_of_doc encoder_start arr_encoded chunk_idx;
          w = zip (select_window step sod eod seq1) (select_window step sod eod seq2);
          cur' = (if sod then w else cur @ w)
      in if eod then cur' # doc_windows step encoder_start arr_encoded (Suc chunk_idx) rest []
         else doc_windows step encoder_start arr_encoded (Suc chunk_idx) rest cur')"

definition predict_windows ::
  "int option \<Rightarrow> int \<Rightarrow> int \<Rightarrow> ArrayEncodedOutput \<Rightarrow> 'l list list \<Rightarrow> ('l \<times> int) list list" where
  "predict_windows max_length config_max_length encoder_start arr_encoded labels =
     doc_windows (step_size (py_or max_length config_max_length)) encoder_start arr_encoded 0
       (zip labels (map char_locs arr_encoded)) []"

definition predict_proba_windows ::
  "int option \<Rightarrow> int \<Rightarrow> int \<Rightarrow> ArrayEncodedOutput \<Rightarrow> 'p list list list
     \<Rightarrow> (string \<times> 'p list) list list" where
  "predict_proba_windows max_length config_max_length encoder_start arr_encoded batch_probas =
     doc_windows (step_size (py_or max_length config_max_length)) encoder_start arr_encoded 0
       (zip (map tokens arr_encoded) batch_probas) []"

text \<open>The char locations of a group that are not the padding sentinel.\<close>

definition real_locs :: "('l \<times> int) list \<Rightarrow> int list" where
  "real_locs g = filter (\<lambda>position. position \<noteq> -1) (map snd g)"

text \<open>
  One document accumulated from scratch over its group (doc index \<open>k\<close>), and the
  documents of a batch one after the other.
\<close>

definition stitch_doc ::
  "string list \<Rightarrow> int \<Rightarrow> ('l \<times> int) list \<Rightarrow> error + (string list \<times> 'l list)" where
  "stitch_doc X k g =
     (case stitch_tokens X k (Some ([], [], 0)) g of
        Inl e \<Rightarrow> Inl e
      | Inr None \<Rightarrow> Inl UnboundLocalError
      | Inr (Some (doc_subseqs, doc_labels, start_of_token)) \<Rightarrow> Inr (doc_subseqs, doc_labels))"

fun stitch_docs ::
  "string list \<Rightarrow> int \<Rightarrow> ('l \<times> int) list list \<Rightarrow> error + (string list list \<times> 'l list list)" where
  "stitch_docs X k [] = Inr ([], [])"
| "stitch_docs X k (g # gs) =
     (case stitch_doc X k g of
        Inl e \<Rightarrow> Inl e
      | Inr (doc_subseqs, doc_labels) \<Rightarrow>
          (case stitch_docs X (k + 1) gs of
             Inl e \<Rightarrow> Inl e
           | Inr (all_subseqs, all_labels) \<Rightarrow>
               Inr (doc_subseqs # all_subseqs, doc_labels # all_labels)))"



section \<open>Predicates used in the proofs\<close>

text \<open>
  The two lists of an accumulator have the same length and no label repeats its
  predecessor.
\<close>

definition acc_ok :: "'l doc_acc \<Rightarrow> bool" where
  "acc_ok acc = (case acc of None \<Rightarrow> True
     | Some (doc_subseqs, doc_labels, start_of_token) \<Rightarrow>
         length doc_subseqs = length doc_labels \<and> distinct_adj doc_labels)"



text \<open>The pair that \<open>predict_proba\<close> emits for one token of a window.\<close>

definition token_dist :: "'c list \<Rightarrow> string \<times> 'p list \<Rightarrow> string \<times> ('c \<times> 'p) list" where
  "token_dist classes t = (fst t, py_dict (zip classes (snd t)))"

text \<open>
  The invariant of the lists of \<open>predict\<close>: the accumulator's two lists have the same
  length, and the two batch-level lists hold as many documents, each with as many
  span texts as labels.
\<close>

definition paired :: "'l doc_acc \<Rightarrow> bool" where
  "paired acc = (case acc of None \<Rightarrow> True
     | Some (doc_subseqs, doc_labels, start_of_token) \<Rightarrow> length doc_subseqs = length doc_labels)"

definition lockstep :: "'l predict_state \<Rightarrow> bool" where
  "lockstep st = (case st of (all_subseqs, all_labels, doc_idx, acc) \<Rightarrow>
     list_all2 (\<lambda>doc_subseqs doc_labels. length doc_subseqs = length doc_labels)
       all_subseqs all_labels \<and> paired acc)"

section \<open>The chunk planner\<close>

text \<open>
  Modelled from the spec: the tokenizer's chunk planning (\<open>_text_to_ids\<close>) is not part of
  \<open>sequence_labeling.py\<close>. Section 4.1 of the specification: with
  \<open>chunk_size = max_length - 2\<close> and \<open>step_size = chunk_size // 3\<close>, each new chunk
  starts \<open>step_size\<close> tokens after the start of the one before it and holds
  \<open>chunk_size\<close> tokens, the final chunk holds the tokens that remain, a document that
  fits in one chunk gives exactly one chunk, and a document with no tokens gives no
  chunk. A token of the stream carries its id, its text and its char location; the
  start and end markers are tokens of the stream with the char location \<open>-1\<close>.
  Without a positive step size nothing is planned.
\<close>

record tok =
  tok_id :: int
  tok_text :: string
  tok_loc :: int











section \<open>Lemmas\<close>

subsection \<open>Slices and zips\<close>

lemma py_slice_nonneg:
  assumes "0 \<le> lo" "0 \<le> hi"
  shows "py_slice xs lo hi = take (nat hi - nat lo) (drop (nat lo) xs)"
proof (cases "nat lo \<le> length xs")
  case True
  then have "py_slice xs lo hi = take (min (length xs) (nat hi) - nat lo) (drop (nat lo) xs)"
    using assms by (simp add: py_slice_def py_bound_def Let_def min_absorb2)
  also have "\<dots> = take (nat hi - nat lo) (drop (nat lo) xs)"
    by (cases "nat hi \<le> length xs") (simp_all add: min_def)
  finally show ?thesis .
next
  case False
  then show ?thesis
    using assms by (simp add: py_slice_def py_bound_def Let_def)
qed

lemma take_drop_nths: "take k (drop n xs) = nths xs {i. n \<le> i \<and> i < n + k}"
proof -
  have "take k (drop n xs) = nths (drop n xs) {..<k}"
    by (simp add: nths_upt_eq_take)
  also have "\<dots> = nths xs ((+) n ` {..<k})"
    by (rule nths_drop)
  also have "(+) n ` {..<k} = {i. n \<le> i \<and> i < n + k}"
  proof (intro set_eqI iffI)
    fix i assume "i \<in> (+) n ` {..<k}"
    then show "i \<in> {i. n \<le> i \<and> i < n + k}" by auto
  next
    fix i assume "i \<in> {i. n \<le> i \<and> i < n + k}"
    then have "i = n + (i - n)" "i - n < k" by auto
    then show "i \<in> (+) n ` {..<k}" by blast
  qed
  finally show ?thesis .
qed

lemma py_slice_nths:
  assumes "0 \<le> lo" "0 \<le> hi"
  shows "py_slice xs lo hi = nths xs {i. lo \<le> int i \<and> int i < hi}"
proof -
  have "{i. nat lo \<le> i \<and> i < nat lo + (nat hi - nat lo)} = {i. lo \<le> int i \<and> int i < hi}"
    using assms by auto
  then show ?thesis
    using assms by (simp add: py_slice_nonneg take_drop_nths)
qed

lemma py_slice_from_nths:
  assumes "0 \<le> lo"
  shows "py_slice_from xs lo = nths xs {i. lo \<le> int i}"
proof -
  have "py_slice_from xs lo = drop (nat lo) xs"
    using assms by (simp add: py_slice_from_def py_slice_nonneg)
  also have "\<dots> = nths xs {i. nat lo \<le> i}"
    by (rule drop_eq_nths)
  also have "{i. nat lo \<le> i} = {i. lo \<le> int i}"
    using assms by auto
  finally show ?thesis .
qed

lemma step_size_nonneg: "2 \<le> ml \<Longrightarrow> 0 \<le> step_size ml"
  by (simp add: step_size_def)

lemma py_slice_append:
  assumes "0 \<le> a" "a \<le> b" "b \<le> c"
  shows "py_slice xs a b @ py_slice xs b c = py_slice xs a c"
proof -
  have "take (nat c - nat a) (drop (nat a) xs) =
        take ((nat b - nat a) + (nat c - nat b)) (drop (nat a) xs)"
    using assms by simp
  also have "\<dots> = take (nat b - nat a) (drop (nat a) xs) @
                   take (nat c - nat b) (drop (nat b - nat a) (drop (nat a) xs))"
    by (rule take_add)
  also have "drop (nat b - nat a) (drop (nat a) xs) = drop (nat b) xs"
    using assms by simp
  finally show ?thesis
    using assms by (simp add: py_slice_nonneg)
qed



lemma select_window_zero:
  "select_window 0 sod eod xs = (if eod then xs else [])"
  by (simp add: select_window_def py_slice_def py_slice_from_def py_bound_def)

lemma zip_take_left: "zip (take (length ys) xs) ys = zip xs ys"
proof (induction xs arbitrary: ys)
  case Nil
  show ?case by simp
next
  case (Cons x xs)
  then show ?case by (cases ys) simp_all
qed

lemma zip_take_right: "zip xs (take (length xs) ys) = zip xs ys"
proof (induction xs arbitrary: ys)
  case Nil
  show ?case by simp
next
  case (Cons x xs)
  then show ?case by (cases ys) simp_all
qed

lemma zip_take_eq_right:
  "take (length xs) ys' = take (length xs) ys \<Longrightarrow> zip xs ys' = zip xs ys"
  by (metis zip_take_right)

lemma zip_take_eq_left:
  "take (length ys) xs' = take (length ys) xs \<Longrightarrow> zip xs' ys = zip xs ys"
  by (metis zip_take_left)

subsection \<open>The loop over the tokens\<close>

lemma stitch_tokens_append:
  "stitch_tokens X d acc (xs @ ys) =
     (case stitch_tokens X d acc xs of Inl e \<Rightarrow> Inl e | Inr acc' \<Rightarrow> stitch_tokens X d acc' ys)"
  by (induction xs arbitrary: acc) (auto split: sum.splits)

lemma stitch_token_Some:
  "stitch_token X d (Some a) t = Inr r \<Longrightarrow> r \<noteq> None"
  by (cases a) (auto simp: stitch_token_def split: prod.splits if_splits sum.splits)

lemma stitch_tokens_Some:
  "stitch_tokens X d (Some a) ts = Inr r \<Longrightarrow> r \<noteq> None"
proof (induction ts arbitrary: a)
  case Nil
  then show ?case by (cases a) auto
next
  case (Cons t ts)
  from Cons.prems obtain acc' where 1: "stitch_token X d (Some a) t = Inr acc'"
    and 2: "stitch_tokens X d acc' ts = Inr r"
    by (auto split: sum.splits)
  from stitch_token_Some [OF 1] obtain a' where "acc' = Some a'" by auto
  with 2 Cons.IH show ?case by blast
qed

lemma stitch_token_None:
  "stitch_token X d None t = Inr r \<Longrightarrow> r = None \<and> snd t = -1"
  by (auto simp: stitch_token_def split: prod.splits if_splits)

lemma stitch_tokens_None:
  "stitch_tokens X d None ts = Inr r \<Longrightarrow> r = None"
  by (induction ts) (auto split: sum.splits dest!: stitch_token_None)

lemma stitch_tokens_filter:
  "stitch_tokens X d acc (filter (\<lambda>t. snd t \<noteq> -1) ts) = stitch_tokens X d acc ts"
proof (induction ts arbitrary: acc)
  case Nil
  show ?case by simp
next
  case (Cons t ts)
  show ?case
  proof (cases "snd t = -1")
    case True
    then have "stitch_token X d acc t = Inr acc"
      by (cases t) (simp add: stitch_token_def)
    with True Cons show ?thesis by simp
  next
    case False
    with Cons show ?thesis by (simp split: sum.splits)
  qed
qed

lemma stitch_tokens_padding:
  assumes "real_locs g = []"
  shows "stitch_tokens X k acc g = Inr acc"
proof -
  have "filter (\<lambda>t. snd t \<noteq> -1) g = []"
    using assms by (simp add: real_locs_def filter_map comp_def)
  with stitch_tokens_filter [of X k acc g] show ?thesis by simp
qed

lemma stitch_token_ok:
  assumes "stitch_token X d acc t = Inr acc'" "acc_ok acc"
  shows "acc_ok acc'"
  using assms
  by (auto simp: stitch_token_def acc_ok_def distinct_adj_append_iff split: prod.splits if_splits sum.splits option.splits)


lemma stitch_token_total:
  assumes "acc_ok (Some a)" "0 \<le> k" "k < int (length X)"
  shows "\<exists>a'. stitch_token X k (Some a) t = Inr (Some a')"
proof -
  obtain s l c where a: "a = (s, l, c)" by (cases a)
  obtain label p where t: "t = (label, p)" by (cases t)
  from assms(2,3) have g: "py_get X k = Inr (X ! nat k)"
    by (simp add: py_get_def)
  from assms(1) a have "length s = length l" by (simp add: acc_ok_def)
  then show ?thesis
    using a t g by (auto simp: stitch_token_def)
qed

lemma stitch_tokens_total:
  assumes "acc_ok (Some a)" "0 \<le> k" "k < int (length X)"
  shows "\<exists>a'. stitch_tokens X k (Some a) ts = Inr (Some a') \<and> acc_ok (Some a')"
  using assms(1)
proof (induction ts arbitrary: a)
  case Nil
  then show ?case by simp
next
  case (Cons t ts)
  from stitch_token_total [OF Cons.prems assms(2,3), of t]
  obtain a1 where 1: "stitch_token X k (Some a) t = Inr (Some a1)" by blast
  from stitch_token_ok [OF 1 Cons.prems] have "acc_ok (Some a1)" .
  from Cons.IH [OF this] 1 show ?case by simp
qed

lemma stitch_token_paired:
  "stitch_token X d acc t = Inr acc' \<Longrightarrow> paired acc \<Longrightarrow> paired acc'"
  by (auto simp: stitch_token_def paired_def split: prod.splits if_splits sum.splits option.splits)

lemma stitch_tokens_paired:
  "stitch_tokens X d acc ts = Inr acc' \<Longrightarrow> paired acc \<Longrightarrow> paired acc'"
  by (induction ts arbitrary: acc) (auto split: sum.splits dest: stitch_token_paired)

subsection \<open>The accumulator and the spans of the specification\<close>













lemma stitch_doc_padding: "real_locs g = [] \<Longrightarrow> stitch_doc X k g = Inr ([], [])"
  by (simp add: stitch_doc_def stitch_tokens_padding)

lemma stitch_docs_nth:
  assumes "stitch_docs X k gs = Inr (ss, ls)"
  shows "length ss = length gs \<and> length ls = length gs \<and>
         (\<forall>j<length gs. stitch_doc X (k + int j) (gs ! j) = Inr (ss ! j, ls ! j))"
  using assms
proof (induction gs arbitrary: k ss ls)
  case Nil
  then show ?case by simp
next
  case (Cons g gs)
  from Cons.prems obtain s l ss' ls' where
    1: "stitch_doc X k g = Inr (s, l)" and 2: "stitch_docs X (k + 1) gs = Inr (ss', ls')"
    and 3: "ss = s # ss'" "ls = l # ls'"
    by (auto split: sum.splits)
  from Cons.IH [OF 2] have len: "length ss' = length gs" "length ls' = length gs"
    and nth: "\<And>j. j < length gs \<Longrightarrow> stitch_doc X (k + 1 + int j) (gs ! j) = Inr (ss' ! j, ls' ! j)"
    by auto
  have "stitch_doc X (k + int j) ((g # gs) ! j) = Inr (ss ! j, ls ! j)" if "j < length (g # gs)" for j
  proof (cases j)
    case 0
    with 1 3 show ?thesis by simp
  next
    case (Suc j')
    have kj: "k + int (Suc j') = k + 1 + int j'" by simp
    from that Suc have "j' < length gs" by simp
    from nth [OF this] show ?thesis
      unfolding Suc kj using 3 by simp
  qed
  with len 3 show ?case by simp
qed

subsection \<open>The flags of the chunks\<close>

lemma flags_chain:
  "Suc i < length enc \<Longrightarrow> end_of_doc start enc i = start_of_doc start enc (Suc i)"
  by (simp add: end_of_doc_def start_of_doc_def)

lemma flags_cong:
  assumes "length enc' = length enc" "map first_token_id enc' = map first_token_id enc"
    and "i < length enc"
  shows "start_of_doc start enc' i = start_of_doc start enc i"
    and "end_of_doc start enc' i = end_of_doc start enc i"
proof -
  have nth: "first_token_id (enc' ! j) = first_token_id (enc ! j)" if "j < length enc" for j
  proof -
    from that assms(1) have "first_token_id (enc' ! j) = map first_token_id enc' ! j" by simp
    also have "\<dots> = map first_token_id enc ! j" using assms(2) by simp
    also have "\<dots> = first_token_id (enc ! j)" using that by simp
    finally show ?thesis .
  qed
  show "start_of_doc start enc' i = start_of_doc start enc i"
    using nth [OF assms(3)] by (simp add: start_of_doc_def)
  show "end_of_doc start enc' i = end_of_doc start enc i"
  proof (cases "i + 1 < length enc")
    case True
    from nth [OF True] True assms(1) show ?thesis by (simp add: end_of_doc_def)
  next
    case False
    with assms(1) show ?thesis by (simp add: end_of_doc_def)
  qed
qed

lemma length_doc_windows:
  "length (doc_windows step start enc i zs cur) =
     length (filter (end_of_doc start enc) [i..<i + length zs])"
proof (induction zs arbitrary: i cur)
  case Nil
  show ?case by simp
next
  case (Cons z zs)
  obtain a b where z: "z = (a, b)" by (cases z)
  have "i < i + length (z # zs)" by simp
  then have "[i..<i + length (z # zs)] = i # [Suc i..<Suc i + length zs]"
    by (simp only: upt_conv_Cons) simp
  with Cons.IH [of "Suc i"] z show ?case by (simp add: Let_def)
qed

lemma count_end_start:
  assumes "i < length enc"
  shows "length (filter (end_of_doc start enc) [i..<length enc]) =
         Suc (length (filter (start_of_doc start enc) [Suc i..<length enc]))"
  using assms
proof (induction "length enc - i" arbitrary: i)
  case 0
  then show ?case by simp
next
  case (Suc n)
  have up: "[i..<length enc] = i # [Suc i..<length enc]"
    using Suc.prems by (simp add: upt_conv_Cons)
  show ?case
  proof (cases "Suc i < length enc")
    case True
    have up2: "[Suc i..<length enc] = Suc i # [Suc (Suc i)..<length enc]"
      using True by (simp add: upt_conv_Cons)
    from Suc.hyps(2) have "n = length enc - Suc i" by simp
    from Suc.hyps(1) [OF this True]
    have "length (filter (end_of_doc start enc) [Suc i..<length enc]) =
          Suc (length (filter (start_of_doc start enc) [Suc (Suc i)..<length enc]))" .
    then show ?thesis
      using flags_chain [OF True, of start] by (simp add: up) (simp add: up2)
  next
    case False
    with Suc.prems have "Suc i = length enc" by simp
    then show ?thesis by (simp add: up end_of_doc_def)
  qed
qed

lemma count_start_chunks:
  "length (filter (start_of_doc start enc) [0..<length enc]) =
   length (filter (\<lambda>c. first_token_id c = start) enc)"
proof -
  have "filter (\<lambda>c. first_token_id c = start) (map ((!) enc) [0..<length enc]) =
        map ((!) enc) (filter (start_of_doc start enc) [0..<length enc])"
    by (simp add: filter_map comp_def start_of_doc_def [abs_def])
  then have "length (filter (\<lambda>c. first_token_id c = start) (map ((!) enc) [0..<length enc])) =
        length (filter (start_of_doc start enc) [0..<length enc])"
    by simp
  then show ?thesis by (simp add: map_nth)
qed

lemma count_docs:
  assumes "enc \<noteq> [] \<longrightarrow> first_token_id (hd enc) = start"
  shows "length (filter (end_of_doc start enc) [0..<length enc]) =
         length (filter (\<lambda>c. first_token_id c = start) enc)"
proof (cases enc)
  case Nil
  then show ?thesis by simp
next
  case (Cons c cs)
  then have pos: "0 < length enc" by simp
  have s0: "start_of_doc start enc 0"
    using assms Cons by (simp add: start_of_doc_def)
  have "[0..<length enc] = 0 # [Suc 0..<length enc]"
    using pos by (simp add: upt_conv_Cons)
  then have "length (filter (start_of_doc start enc) [0..<length enc]) =
        Suc (length (filter (start_of_doc start enc) [Suc 0..<length enc]))"
    using s0 by simp
  with count_end_start [OF pos, of start] count_start_chunks [of start enc]
  show ?thesis by simp
qed

lemma count_prefix:
  "length (filter P [0..<0 + m]) \<le> length (filter P [0..<n])" if "m \<le> n"
proof -
  from that have "[0..<n] = [0..<m] @ [m..<n]"
    by (metis le_add_diff_inverse upt_add_eq_append zero_le)
  then show ?thesis by simp
qed

lemma length_predict_windows:
  assumes "length arr_encoded \<le> length labels"
    and "arr_encoded \<noteq> [] \<longrightarrow> first_token_id (hd arr_encoded) = encoder_start"
  shows "length (predict_windows max_length config_max_length encoder_start arr_encoded labels) =
         length (filter (\<lambda>c. first_token_id c = encoder_start) arr_encoded)"
proof -
  have "length (zip labels (map char_locs arr_encoded)) = length arr_encoded"
    using assms(1) by simp
  then show ?thesis
    using count_docs [OF assms(2)] by (simp add: predict_windows_def length_doc_windows)
qed

lemma length_predict_proba_windows:
  assumes "length arr_encoded \<le> length batch_probas"
    and "arr_encoded \<noteq> [] \<longrightarrow> first_token_id (hd arr_encoded) = encoder_start"
  shows "length (predict_proba_windows max_length config_max_length encoder_start arr_encoded batch_probas) =
         length (filter (\<lambda>c. first_token_id c = encoder_start) arr_encoded)"
proof -
  have "length (zip (map tokens arr_encoded) batch_probas) = length arr_encoded"
    using assms(1) by simp
  then show ?thesis
    using count_docs [OF assms(2)] by (simp add: predict_proba_windows_def length_doc_windows)
qed

subsection \<open>The loop over the chunks of \<open>predict\<close>\<close>

lemma predict_chunk_Inr:
  assumes "predict_chunk X step sod eod ls ps (as, al, di, acc) = Inr st1"
  shows "\<exists>acc2. stitch_tokens X (if sod then di + 1 else di)
             (if sod then Some ([], [], 0) else acc)
             (zip (select_window step sod eod ls) (select_window step sod eod ps)) = Inr acc2 \<and>
           (if eod then \<exists>s l c. acc2 = Some (s, l, c) \<and>
                st1 = (as @ [s], al @ [l], (if sod then di + 1 else di), acc2)
            else st1 = (as, al, (if sod then di + 1 else di), acc2))"
  using assms
  by (auto simp: Let_def split: sum.splits option.splits if_splits)

lemma predict_loop_unstarted:
  assumes "predict_loop X step start enc i zs (as, al, di, None) = Inr (as', al', di', acc')"
    and "i + length zs \<le> length enc"
    and "zs \<noteq> [] \<longrightarrow> \<not> start_of_doc start enc i"
  shows "as' = as \<and> al' = al \<and> doc_windows step start enc i zs cur = []"
  using assms
proof (induction zs arbitrary: i di cur)
  case Nil
  then show ?case by simp
next
  case (Cons z rest)
  obtain ls ps where z: "z = (ls, ps)" by (cases z)
  let ?sod = "start_of_doc start enc i" and ?eod = "end_of_doc start enc i"
  from Cons.prems(3) have sod: "\<not> ?sod" by simp
  from Cons.prems(1) z obtain st1 where
    1: "predict_chunk X step ?sod ?eod ls ps (as, al, di, None) = Inr st1" and
    2: "predict_loop X step start enc (Suc i) rest st1 = Inr (as', al', di', acc')"
    by (auto split: sum.splits)
  from predict_chunk_Inr [OF 1] obtain acc2 where
    3: "stitch_tokens X (if ?sod then di + 1 else di) (if ?sod then Some ([], [], 0) else None)
          (zip (select_window step ?sod ?eod ls) (select_window step ?sod ?eod ps)) = Inr acc2"
    and 4: "if ?eod then \<exists>s l c. acc2 = Some (s, l, c) \<and>
                st1 = (as @ [s], al @ [l], (if ?sod then di + 1 else di), acc2)
            else st1 = (as, al, (if ?sod then di + 1 else di), acc2)"
    by blast
  from 3 sod have "stitch_tokens X di None
      (zip (select_window step ?sod ?eod ls) (select_window step ?sod ?eod ps)) = Inr acc2"
    by simp
  from stitch_tokens_None [OF this] have none: "acc2 = None" .
  with 4 sod have eod: "\<not> ?eod" and st1: "st1 = (as, al, di, None)"
    by (auto split: if_splits)
  have next_sod: "rest \<noteq> [] \<longrightarrow> \<not> start_of_doc start enc (Suc i)"
  proof
    assume "rest \<noteq> []"
    then have "Suc i < length enc" using Cons.prems(2) by (cases rest) auto
    from flags_chain [OF this, of start] eod show "\<not> start_of_doc start enc (Suc i)" by simp
  qed
  have "as' = as \<and> al' = al \<and> doc_windows step start enc (Suc i) rest cur' = []" for cur'
    using Cons.IH [of "Suc i" di cur'] 2 st1 Cons.prems(2) next_sod by simp
  then show ?case using z sod eod by (simp add: Let_def)
qed

lemma predict_loop_docs:
  assumes "predict_loop X step start enc i zs (as, al, di, acc) = Inr (as', al', di', acc')"
    and "i + length zs \<le> length enc"
    and "(zs \<noteq> [] \<longrightarrow> start_of_doc start enc i) \<and> di + 1 = int (length as) \<or>
         (\<exists>a. acc = Some a \<and> stitch_tokens X di (Some ([], [], 0)) cur = Inr (Some a)) \<and>
           di = int (length as) \<and> (zs \<noteq> [] \<longrightarrow> \<not> start_of_doc start enc i)"
  shows "\<exists>rs rl. stitch_docs X (int (length as)) (doc_windows step start enc i zs cur) = Inr (rs, rl) \<and>
           as' = as @ rs \<and> al' = al @ rl"
  using assms
proof (induction zs arbitrary: i as al di acc cur)
  case Nil
  then show ?case by simp
next
  case (Cons z rest)
  obtain ls ps where z: "z = (ls, ps)" by (cases z)
  let ?sod = "start_of_doc start enc i" and ?eod = "end_of_doc start enc i"
  let ?w = "zip (select_window step ?sod ?eod ls) (select_window step ?sod ?eod ps)"
  let ?cur = "if ?sod then ?w else cur @ ?w"
  let ?k = "int (length as)"
  from Cons.prems(1) z obtain st1 where
    1: "predict_chunk X step ?sod ?eod ls ps (as, al, di, acc) = Inr st1" and
    2: "predict_loop X step start enc (Suc i) rest st1 = Inr (as', al', di', acc')"
    by (auto split: sum.splits)
  from predict_chunk_Inr [OF 1] obtain acc2 where
    3: "stitch_tokens X (if ?sod then di + 1 else di) (if ?sod then Some ([], [], 0) else acc) ?w = Inr acc2"
    and 4: "if ?eod then \<exists>s l c. acc2 = Some (s, l, c) \<and>
                st1 = (as @ [s], al @ [l], (if ?sod then di + 1 else di), acc2)
            else st1 = (as, al, (if ?sod then di + 1 else di), acc2)"
    by blast
  have di1: "(if ?sod then di + 1 else di) = ?k"
    using Cons.prems(3) by auto
  have "\<exists>a2. acc2 = Some a2 \<and> stitch_tokens X ?k (Some ([], [], 0)) ?cur = Inr (Some a2)"
  proof (cases ?sod)
    case True
    with 3 di1 have r: "stitch_tokens X ?k (Some ([], [], 0)) ?w = Inr acc2" by simp
    from stitch_tokens_Some [OF r] obtain a2 where "acc2 = Some a2" by auto
    with r True show ?thesis by (intro exI [of _ a2]) simp
  next
    case False
    with Cons.prems(3) obtain a where a: "acc = Some a"
      "stitch_tokens X ?k (Some ([], [], 0)) cur = Inr (Some a)" by auto
    with 3 False di1 have r: "stitch_tokens X ?k (Some a) ?w = Inr acc2" by simp
    from stitch_tokens_Some [OF r] obtain a2 where "acc2 = Some a2" by auto
    with a r False show ?thesis by (intro exI [of _ a2]) (simp add: stitch_tokens_append)
  qed
  then obtain s2 l2 c2 where acc2: "acc2 = Some (s2, l2, c2)"
    and open2: "stitch_tokens X ?k (Some ([], [], 0)) ?cur = Inr (Some (s2, l2, c2))"
    by (metis prod_cases3)
  have bound: "Suc i + length rest \<le> length enc" using Cons.prems(2) by simp
  have chain: "rest \<noteq> [] \<Longrightarrow> start_of_doc start enc (Suc i) = ?eod"
  proof -
    assume "rest \<noteq> []"
    then have "Suc i < length enc" using Cons.prems(2) by (cases rest) auto
    from flags_chain [OF this, of start] show ?thesis by simp
  qed
  show ?case
  proof (cases ?eod)
    case True
    with 4 acc2 di1 have st1: "st1 = (as @ [s2], al @ [l2], ?k, Some (s2, l2, c2))" by simp
    have doc: "stitch_doc X ?k ?cur = Inr (s2, l2)"
      using open2 by (simp add: stitch_doc_def)
    from Cons.IH [of "Suc i" "as @ [s2]" "al @ [l2]" ?k "Some (s2, l2, c2)" "[]"] 2 st1 bound chain True
    obtain rs rl where
      "stitch_docs X (?k + 1) (doc_windows step start enc (Suc i) rest []) = Inr (rs, rl)"
      "as' = as @ [s2] @ rs" "al' = al @ [l2] @ rl"
      by (auto simp: add.commute)
    with doc True z show ?thesis by (auto simp: Let_def)
  next
    case False
    with 4 acc2 di1 have st1: "st1 = (as, al, ?k, Some (s2, l2, c2))" by simp
    from Cons.IH [of "Suc i" as al ?k "Some (s2, l2, c2)" ?cur] 2 st1 bound chain False open2
    obtain rs rl where
      "stitch_docs X ?k (doc_windows step start enc (Suc i) rest ?cur) = Inr (rs, rl)"
      "as' = as @ rs" "al' = al @ rl"
      by auto
    with False z show ?thesis by (auto simp: Let_def)
  qed
qed

lemma predict_stitch_docs:
  assumes "predict X max_length config_max_length encoder_start arr_encoded labels = Inr (subs, labs)"
  shows "stitch_docs X 0 (predict_windows max_length config_max_length encoder_start arr_encoded labels)
           = Inr (subs, labs)"
proof -
  let ?step = "step_size (py_or max_length config_max_length)"
  let ?zs = "zip labels (map char_locs arr_encoded)"
  from assms obtain di acc where
    run: "predict_loop X ?step encoder_start arr_encoded 0 ?zs ([], [], -1, None) = Inr (subs, labs, di, acc)"
    by (auto simp: predict_def split: sum.splits)
  have bound: "0 + length ?zs \<le> length arr_encoded" by simp
  show ?thesis
  proof (cases "?zs \<noteq> [] \<longrightarrow> start_of_doc encoder_start arr_encoded 0")
    case True
    from predict_loop_docs [OF run bound, of "[]"] True show ?thesis
      by (auto simp: predict_windows_def)
  next
    case False
    then have "?zs \<noteq> [] \<longrightarrow> \<not> start_of_doc encoder_start arr_encoded 0" by simp
    from predict_loop_unstarted [OF run bound this, of "[]"] show ?thesis
      by (simp add: predict_windows_def)
  qed
qed

lemma predict_doc_record:
  assumes "predict X max_length config_max_length encoder_start arr_encoded labels = Inr (subs, labs)"
    and "k < length subs"
  shows "stitch_doc X (int k)
           (predict_windows max_length config_max_length encoder_start arr_encoded labels ! k) =
         Inr (subs ! k, labs ! k)"
proof -
  from stitch_docs_nth [OF predict_stitch_docs [OF assms(1)]] assms(2)
  show ?thesis by simp
qed

lemma predict_loop_total:
  assumes "i + length zs \<le> length enc"
    and "di + int (length (filter (start_of_doc start enc) [i..<i + length zs])) < int (length X)"
    and "acc = None \<and> di = -1 \<and> (zs \<noteq> [] \<longrightarrow> start_of_doc start enc i) \<or>
         (\<exists>a. acc = Some a \<and> acc_ok acc) \<and> 0 \<le> di"
  shows "\<exists>st'. predict_loop X step start enc i zs (as, al, di, acc) = Inr st'"
  using assms
proof (induction zs arbitrary: i as al di acc)
  case Nil
  then show ?case by simp
next
  case (Cons z rest)
  obtain ls ps where z: "z = (ls, ps)" by (cases z)
  let ?sod = "start_of_doc start enc i" and ?eod = "end_of_doc start enc i"
  let ?w = "zip (select_window step ?sod ?eod ls) (select_window step ?sod ?eod ps)"
  let ?di1 = "if ?sod then di + 1 else di"
  let ?acc1 = "if ?sod then Some ([], [], 0) else acc"
  let ?n = "int (length (filter (start_of_doc start enc) [Suc i..<Suc i + length rest]))"
  have "i < i + length (z # rest)" by simp
  then have up: "[i..<i + length (z # rest)] = i # [Suc i..<Suc i + length rest]"
    by (simp only: upt_conv_Cons) simp
  from Cons.prems(2) have cnt: "?di1 + ?n < int (length X)"
    unfolding up by (simp split: if_splits)
  from Cons.prems(3) have di1: "0 \<le> ?di1" by auto
  have "?n \<ge> 0" by simp
  with cnt have di1': "?di1 < int (length X)" by linarith
  from Cons.prems(3) obtain a1 where a1: "?acc1 = Some a1" "acc_ok (Some a1)"
    by (cases ?sod) (auto simp: acc_ok_def)
  from stitch_tokens_total [OF a1(2) di1 di1', of ?w]
  obtain a2 where a2: "stitch_tokens X ?di1 (Some a1) ?w = Inr (Some a2)" "acc_ok (Some a2)"
    by blast
  obtain s2 l2 c2 where a2': "a2 = (s2, l2, c2)" by (cases a2)
  let ?st1 = "if ?eod then (as @ [s2], al @ [l2], ?di1, Some a2) else (as, al, ?di1, Some a2)"
  have chunk: "predict_chunk X step ?sod ?eod ls ps (as, al, di, acc) = Inr ?st1"
    using a1(1) a2(1) a2' by (simp add: Let_def)
  have bound: "Suc i + length rest \<le> length enc" using Cons.prems(1) by simp
  have st: "Some a2 = None \<and> ?di1 = -1 \<and> (rest \<noteq> [] \<longrightarrow> start_of_doc start enc (Suc i)) \<or>
         (\<exists>a. Some a2 = Some a \<and> acc_ok (Some a2)) \<and> 0 \<le> ?di1"
    using a2(2) di1 by blast
  have "\<exists>st'. predict_loop X step start enc (Suc i) rest (as1, al1, ?di1, Some a2) = Inr st'"
    for as1 al1
    by (rule Cons.IH [OF bound cnt st])
  then have "\<exists>st'. predict_loop X step start enc (Suc i) rest ?st1 = Inr st'"
    by (cases ?eod) simp_all
  with chunk z show ?case by simp
qed

lemma predict_total:
  assumes "labels \<noteq> [] \<longrightarrow> arr_encoded \<noteq> [] \<longrightarrow> first_token_id (hd arr_encoded) = encoder_start"
    and "length (filter (\<lambda>c. first_token_id c = encoder_start) arr_encoded) \<le> length X"
  shows "\<exists>r. predict X max_length config_max_length encoder_start arr_encoded labels = Inr r"
proof -
  let ?zs = "zip labels (map char_locs arr_encoded)"
  let ?step = "step_size (py_or max_length config_max_length)"
  have len: "length ?zs \<le> length arr_encoded" by simp
  have "length (filter (start_of_doc encoder_start arr_encoded) [0..<0 + length ?zs])
          \<le> length (filter (start_of_doc encoder_start arr_encoded) [0..<length arr_encoded])"
    using len by (rule count_prefix)
  with assms(2) have cnt:
    "-1 + int (length (filter (start_of_doc encoder_start arr_encoded) [0..<0 + length ?zs]))
       < int (length X)"
    by (simp add: count_start_chunks)
  have first: "?zs \<noteq> [] \<longrightarrow> start_of_doc encoder_start arr_encoded 0"
    using assms(1) by (cases arr_encoded; cases labels) (auto simp: start_of_doc_def)
  from predict_loop_total [of 0 ?zs arr_encoded "-1" encoder_start X None ?step "[]" "[]"]
    len cnt first
  obtain st' where "predict_loop X ?step encoder_start arr_encoded 0 ?zs ([], [], -1, None) = Inr st'"
    by auto
  then show ?thesis
    by (cases st') (simp add: predict_def)
qed

lemma predict_chunk_lockstep:
  assumes "predict_chunk X step sod eod ls ps st = Inr st'" "lockstep st"
  shows "lockstep st'"
proof -
  obtain as al di acc where st: "st = (as, al, di, acc)" by (cases st)
  from predict_chunk_Inr [OF assms(1) [unfolded st]] obtain acc2 where
    3: "stitch_tokens X (if sod then di + 1 else di) (if sod then Some ([], [], 0) else acc)
          (zip (select_window step sod eod ls) (select_window step sod eod ps)) = Inr acc2"
    and 4: "if eod then \<exists>s l c. acc2 = Some (s, l, c) \<and>
                st' = (as @ [s], al @ [l], (if sod then di + 1 else di), acc2)
            else st' = (as, al, (if sod then di + 1 else di), acc2)"
    by blast
  have "paired (if sod then Some ([], [], 0) else acc)"
    using assms(2) st by (simp add: lockstep_def paired_def)
  from stitch_tokens_paired [OF 3 this] have p2: "paired acc2" .
  show ?thesis
  proof (cases eod)
    case True
    with 4 obtain s l c where "acc2 = Some (s, l, c)"
      "st' = (as @ [s], al @ [l], (if sod then di + 1 else di), acc2)" by auto
    with p2 assms(2) st show ?thesis
      by (simp add: lockstep_def paired_def list_all2_appendI)
  next
    case False
    with 4 p2 assms(2) st show ?thesis by (simp add: lockstep_def)
  qed
qed

lemma predict_loop_lockstep:
  "predict_loop X step start enc i zs st = Inr st' \<Longrightarrow> lockstep st \<Longrightarrow> lockstep st'"
proof (induction zs arbitrary: i st)
  case Nil
  then show ?case by simp
next
  case (Cons z zs)
  obtain ls ps where z: "z = (ls, ps)" by (cases z)
  from Cons.prems(1) z obtain st1 where
    1: "predict_chunk X step (start_of_doc start enc i) (end_of_doc start enc i) ls ps st = Inr st1"
    and 2: "predict_loop X step start enc (Suc i) zs st1 = Inr st'"
    by (auto split: sum.splits)
  from predict_chunk_lockstep [OF 1 Cons.prems(2)] have "lockstep st1" .
  from Cons.IH [OF 2 this] show ?case .
qed

lemma predict_loop_cong:
  assumes "length enc' = length enc" "map first_token_id enc' = map first_token_id enc"
    and "i + length zs \<le> length enc"
  shows "predict_loop X step start enc' i zs st = predict_loop X step start enc i zs st"
  using assms(3)
proof (induction zs arbitrary: i st)
  case Nil
  show ?case by simp
next
  case (Cons z zs)
  obtain ls ps where z: "z = (ls, ps)" by (cases z)
  from Cons.prems have i: "i < length enc" and b: "Suc i + length zs \<le> length enc" by simp_all
  from flags_cong [OF assms(1,2) i, of start] Cons.IH [OF b] z
  show ?case by (simp split: sum.splits)
qed

lemma predict_surplus_labels:
  "predict X max_length config_max_length encoder_start arr_encoded (take (length arr_encoded) labels) =
   predict X max_length config_max_length encoder_start arr_encoded labels"
  using zip_take_left [of "map char_locs arr_encoded" labels]
  by (simp add: predict_def)

lemma predict_surplus_chunks:
  assumes "length enc' = length enc" "map first_token_id enc' = map first_token_id enc"
    and "take (length labels) (map char_locs enc') = take (length labels) (map char_locs enc)"
  shows "predict X max_length config_max_length encoder_start enc' labels =
         predict X max_length config_max_length encoder_start enc labels"
proof -
  have z: "zip labels (map char_locs enc') = zip labels (map char_locs enc)"
    using assms(3) by (rule zip_take_eq_right)
  have "0 + length (zip labels (map char_locs enc)) \<le> length enc" by simp
  from predict_loop_cong [OF assms(1,2) this] z show ?thesis
    by (simp add: predict_def)
qed

subsection \<open>Tables planned for the step size of \<open>predict\<close>\<close>




















subsection \<open>The loop over the chunks of \<open>predict_proba\<close>\<close>

lemma proba_tokens_Some:
  "proba_tokens classes (Some r) ts = Inr (Some (r @ map (token_dist classes) ts))"
  by (induction ts arbitrary: r) (auto simp: proba_token_def token_dist_def split: prod.splits)

lemma proba_tokens_None:
  "proba_tokens classes None ts = Inr x \<Longrightarrow> x = None \<and> ts = []"
  by (cases ts) (auto simp: proba_token_def split: prod.splits)

lemma predict_proba_chunk_Inr:
  assumes "predict_proba_chunk classes step sod eod tks prs (res, sr) = Inr st1"
  shows "\<exists>sr2. proba_tokens classes (if sod then Some [] else sr)
             (zip (select_window step sod eod tks) (select_window step sod eod prs)) = Inr sr2 \<and>
           (if eod then \<exists>r. sr2 = Some r \<and> st1 = (res @ [r], sr2) else st1 = (res, sr2))"
  using assms by (auto simp: Let_def split: sum.splits option.splits if_splits)

lemma predict_proba_loop_unstarted:
  assumes "predict_proba_loop classes step start enc i zs (res, None) = Inr (res', sr')"
    and "i + length zs \<le> length enc"
    and "zs \<noteq> [] \<longrightarrow> \<not> start_of_doc start enc i"
  shows "res' = res \<and> doc_windows step start enc i zs cur = []"
  using assms
proof (induction zs arbitrary: i cur)
  case Nil
  then show ?case by simp
next
  case (Cons z rest)
  obtain tks prs where z: "z = (tks, prs)" by (cases z)
  let ?sod = "start_of_doc start enc i" and ?eod = "end_of_doc start enc i"
  from Cons.prems(3) have sod: "\<not> ?sod" by simp
  from Cons.prems(1) z obtain st1 where
    1: "predict_proba_chunk classes step ?sod ?eod tks prs (res, None) = Inr st1" and
    2: "predict_proba_loop classes step start enc (Suc i) rest st1 = Inr (res', sr')"
    by (auto split: sum.splits)
  from predict_proba_chunk_Inr [OF 1] obtain sr2 where
    3: "proba_tokens classes (if ?sod then Some [] else None)
          (zip (select_window step ?sod ?eod tks) (select_window step ?sod ?eod prs)) = Inr sr2"
    and 4: "if ?eod then \<exists>r. sr2 = Some r \<and> st1 = (res @ [r], sr2) else st1 = (res, sr2)"
    by blast
  from 3 sod have "proba_tokens classes None
      (zip (select_window step ?sod ?eod tks) (select_window step ?sod ?eod prs)) = Inr sr2"
    by simp
  from proba_tokens_None [OF this] have none: "sr2 = None" by simp
  with 4 have eod: "\<not> ?eod" and st1: "st1 = (res, None)"
    by (auto split: if_splits)
  have next_sod: "rest \<noteq> [] \<longrightarrow> \<not> start_of_doc start enc (Suc i)"
  proof
    assume "rest \<noteq> []"
    then have "Suc i < length enc" using Cons.prems(2) by (cases rest) auto
    from flags_chain [OF this, of start] eod show "\<not> start_of_doc start enc (Suc i)" by simp
  qed
  have "res' = res \<and> doc_windows step start enc (Suc i) rest cur' = []" for cur'
    using Cons.IH [of "Suc i" cur'] 2 st1 Cons.prems(2) next_sod by simp
  then show ?case using z sod eod by (simp add: Let_def)
qed

lemma predict_proba_loop_docs:
  assumes "i + length zs \<le> length enc"
    and "(zs \<noteq> [] \<longrightarrow> start_of_doc start enc i) \<or>
         sr = Some (map (token_dist classes) cur) \<and> (zs \<noteq> [] \<longrightarrow> \<not> start_of_doc start enc i)"
  shows "\<exists>sr'. predict_proba_loop classes step start enc i zs (res, sr) =
           Inr (res @ map (map (token_dist classes)) (doc_windows step start enc i zs cur), sr')"
  using assms
proof (induction zs arbitrary: i res sr cur)
  case Nil
  then show ?case by simp
next
  case (Cons z rest)
  obtain tks prs where z: "z = (tks, prs)" by (cases z)
  let ?sod = "start_of_doc start enc i" and ?eod = "end_of_doc start enc i"
  let ?w = "zip (select_window step ?sod ?eod tks) (select_window step ?sod ?eod prs)"
  let ?cur = "if ?sod then ?w else cur @ ?w"
  let ?sr2 = "Some (map (token_dist classes) ?cur)"
  have tok: "proba_tokens classes (if ?sod then Some [] else sr) ?w = Inr ?sr2"
    using Cons.prems(2) by (auto simp: proba_tokens_Some)
  let ?st1 = "if ?eod then (res @ [map (token_dist classes) ?cur], ?sr2) else (res, ?sr2)"
  have chunk: "predict_proba_chunk classes step ?sod ?eod tks prs (res, sr) = Inr ?st1"
    using tok by (simp add: Let_def)
  have bound: "Suc i + length rest \<le> length enc" using Cons.prems(1) by simp
  have chain: "rest \<noteq> [] \<Longrightarrow> start_of_doc start enc (Suc i) = ?eod"
  proof -
    assume "rest \<noteq> []"
    then have "Suc i < length enc" using Cons.prems(1) by (cases rest) auto
    from flags_chain [OF this, of start] show ?thesis by simp
  qed
  show ?case
  proof (cases ?eod)
    case True
    have st: "(rest \<noteq> [] \<longrightarrow> start_of_doc start enc (Suc i)) \<or>
         ?sr2 = Some (map (token_dist classes) []) \<and> (rest \<noteq> [] \<longrightarrow> \<not> start_of_doc start enc (Suc i))"
      using chain True by auto
    from Cons.IH [OF bound st, of "res @ [map (token_dist classes) ?cur]"]
    obtain sr' where "predict_proba_loop classes step start enc (Suc i) rest
        (res @ [map (token_dist classes) ?cur], ?sr2) =
        Inr ((res @ [map (token_dist classes) ?cur]) @
             map (map (token_dist classes)) (doc_windows step start enc (Suc i) rest []), sr')"
      by blast
    with chunk True z show ?thesis by (auto simp: Let_def)
  next
    case False
    have st: "(rest \<noteq> [] \<longrightarrow> start_of_doc start enc (Suc i)) \<or>
         ?sr2 = Some (map (token_dist classes) ?cur) \<and> (rest \<noteq> [] \<longrightarrow> \<not> start_of_doc start enc (Suc i))"
      using chain False by auto
    from Cons.IH [OF bound st, of res]
    obtain sr' where "predict_proba_loop classes step start enc (Suc i) rest (res, ?sr2) =
        Inr (res @ map (map (token_dist classes)) (doc_windows step start enc (Suc i) rest ?cur), sr')"
      by blast
    with chunk False z show ?thesis by (auto simp: Let_def)
  qed
qed

lemma predict_proba_docs:
  assumes "predict_proba classes max_length config_max_length encoder_start arr_encoded batch_probas
             = Inr result"
  shows "result = map (map (token_dist classes))
           (predict_proba_windows max_length config_max_length encoder_start arr_encoded batch_probas)"
proof -
  let ?step = "step_size (py_or max_length config_max_length)"
  let ?zs = "zip (map tokens arr_encoded) batch_probas"
  from assms obtain sr where
    run: "predict_proba_loop classes ?step encoder_start arr_encoded 0 ?zs ([], None) = Inr (result, sr)"
    by (auto simp: predict_proba_def split: sum.splits)
  have bound: "0 + length ?zs \<le> length arr_encoded" by simp
  show ?thesis
  proof (cases "?zs \<noteq> [] \<longrightarrow> start_of_doc encoder_start arr_encoded 0")
    case True
    then have "(?zs \<noteq> [] \<longrightarrow> start_of_doc encoder_start arr_encoded 0) \<or>
      None = Some (map (token_dist classes) []) \<and> (?zs \<noteq> [] \<longrightarrow> \<not> start_of_doc encoder_start arr_encoded 0)"
      by simp
    from predict_proba_loop_docs [OF bound this, where step = ?step and res = "[]"] run show ?thesis
      by (auto simp: predict_proba_windows_def)
  next
    case False
    then have "?zs \<noteq> [] \<longrightarrow> \<not> start_of_doc encoder_start arr_encoded 0" by simp
    from predict_proba_loop_unstarted [OF run bound this, of "[]"] show ?thesis
      by (simp add: predict_proba_windows_def)
  qed
qed

lemma predict_proba_total:
  assumes "batch_probas \<noteq> [] \<longrightarrow> arr_encoded \<noteq> [] \<longrightarrow> first_token_id (hd arr_encoded) = encoder_start"
  shows "predict_proba classes max_length config_max_length encoder_start arr_encoded batch_probas =
     Inr (map (map (token_dist classes))
           (predict_proba_windows max_length config_max_length encoder_start arr_encoded batch_probas))"
proof -
  let ?step = "step_size (py_or max_length config_max_length)"
  let ?zs = "zip (map tokens arr_encoded) batch_probas"
  have bound: "0 + length ?zs \<le> length arr_encoded" by simp
  have first: "?zs \<noteq> [] \<longrightarrow> start_of_doc encoder_start arr_encoded 0"
    using assms by (cases arr_encoded; cases batch_probas) (auto simp: start_of_doc_def)
  then have "(?zs \<noteq> [] \<longrightarrow> start_of_doc encoder_start arr_encoded 0) \<or>
      None = Some (map (token_dist classes) []) \<and> (?zs \<noteq> [] \<longrightarrow> \<not> start_of_doc encoder_start arr_encoded 0)"
    by simp
  from predict_proba_loop_docs [OF bound this, where step = ?step and res = "[]"]
  show ?thesis
    by (auto simp: predict_proba_def predict_proba_windows_def)
qed

lemma predict_proba_loop_cong:
  assumes "length enc' = length enc" "map first_token_id enc' = map first_token_id enc"
    and "i + length zs \<le> length enc"
  shows "predict_proba_loop classes step start enc' i zs st =
         predict_proba_loop classes step start enc i zs st"
  using assms(3)
proof (induction zs arbitrary: i st)
  case Nil
  show ?case by simp
next
  case (Cons z zs)
  obtain ls ps where z: "z = (ls, ps)" by (cases z)
  from Cons.prems have i: "i < length enc" and b: "Suc i + length zs \<le> length enc" by simp_all
  from flags_cong [OF assms(1,2) i, of start] Cons.IH [OF b] z
  show ?case by (simp split: sum.splits)
qed

lemma predict_proba_surplus_probas:
  "predict_proba classes max_length config_max_length encoder_start arr_encoded
     (take (length arr_encoded) batch_probas) =
   predict_proba classes max_length config_max_length encoder_start arr_encoded batch_probas"
  using zip_take_right [of "map tokens arr_encoded" batch_probas]
  by (simp add: predict_proba_def)

lemma predict_proba_surplus_chunks:
  assumes "length enc' = length enc" "map first_token_id enc' = map first_token_id enc"
    and "take (length batch_probas) (map tokens enc') = take (length batch_probas) (map tokens enc)"
  shows "predict_proba classes max_length config_max_length encoder_start enc' batch_probas =
         predict_proba classes max_length config_max_length encoder_start enc batch_probas"
proof -
  have z: "zip (map tokens enc') batch_probas = zip (map tokens enc) batch_probas"
    using assms(3) by (rule zip_take_eq_left)
  have "0 + length (zip (map tokens enc) batch_probas) \<le> length enc" by simp
  from predict_proba_loop_cong [OF assms(1,2) this, of classes] z show ?thesis
    by (simp add: predict_proba_def)
qed

section \<open>The claims\<close>

subsection \<open>C1: the window of a chunk\<close>

text \<open>
  C1 (as amended). For \<open>max_length \<ge> 2\<close>, so that \<open>step_size = (max_length - 2) // 3\<close> is
  not negative, the window of a chunk is chosen by its flags: first and last gives the
  whole chunk, first only the positions \<open>[0, 2*step_size)\<close>, last only the positions
  from \<open>step_size\<close> on, neither the positions \<open>[step_size, 2*step_size)\<close>.
\<close>

theorem select_window_ranges:
  assumes "2 \<le> max_length"
  shows "select_window (step_size max_length) sod eod xs =
     (if sod \<and> eod then xs
      else if sod then nths xs {i. 0 \<le> int i \<and> int i < 2 * step_size max_length}
      else if eod then nths xs {i. step_size max_length \<le> int i}
      else nths xs {i. step_size max_length \<le> int i \<and> int i < 2 * step_size max_length})"
  using step_size_nonneg [OF assms]
  by (simp add: select_window_def py_slice_nths py_slice_from_nths mult.commute)

theorem select_window_ranges_witness:
  "(2::int) \<le> 8 \<and> step_size 8 = 2
   \<and> select_window (step_size 8) True True ''abcdefgh'' = ''abcdefgh''
   \<and> nths ''abcdefgh'' {i. 0 \<le> int i \<and> int i < 2 * step_size 8} = ''abcd''
   \<and> nths ''abcdefgh'' {i. step_size 8 \<le> int i} = ''cdefgh''
   \<and> nths ''abcdefgh'' {i. step_size 8 \<le> int i \<and> int i < 2 * step_size 8} = ''cd''"
  using select_window_ranges [of 8 True False "''abcdefgh''"]
    select_window_ranges [of 8 False True "''abcdefgh''"]
    select_window_ranges [of 8 False False "''abcdefgh''"]
  by (simp add: select_window_def step_size_def py_slice_def py_bound_def py_slice_from_def)

text \<open>
  C1 as stated fails for \<open>max_length = 1\<close>: \<open>step_size\<close> is \<open>-1\<close>, the first chunk of a
  longer document keeps \<open>[:-2]\<close>, all but its last two tokens, and the positions
  \<open>[0, -2)\<close> are none.
\<close>

theorem select_window_negative_step:
  "step_size 1 = -1 \<and> select_window (step_size 1) True False ''abc'' = ''a'' \<and>
   nths ''abc'' {i. 0 \<le> int i \<and> int i < 2 * step_size 1} = []"
  by (simp add: select_window_def step_size_def py_slice_def py_bound_def)

subsection \<open>C2: padding in the two paths\<close>

text \<open>
  C2. Tokens whose char location is the padding sentinel \<open>-1\<close> appear in no output of
  \<open>predict\<close> or \<open>predict_proba\<close>. The hard path skips them (\<open>stitch_tokens_filter\<close>);
  the soft path does not: on one chunk \<open><s> ab </s>\<close> with char locations \<open>-1, 2, -1\<close>
  \<open>predict_proba\<close> emits all three tokens, where \<open>predict\<close> emits the one span \<open>ab\<close>.
\<close>

theorem predict_proba_keeps_padding:
  "predict_proba [''A'', ''B''] None 512 0
     [\<lparr>first_token_id = 0, tokens = [''<s>'', ''ab'', ''</s>''], char_locs = [-1, 2, -1]\<rparr>]
     [[[9, 1], [2, 8], [5, 5::nat]]] =
   Inr [[(''<s>'', [(''A'', 9), (''B'', 1)]), (''ab'', [(''A'', 2), (''B'', 8)]),
         (''</s>'', [(''A'', 5), (''B'', 5)])]] \<and>
   predict [''ab''] None 512 0
     [\<lparr>first_token_id = 0, tokens = [''<s>'', ''ab'', ''</s>''], char_locs = [-1, 2, -1]\<rparr>]
     [[1, 2, 1::nat]] = Inr ([[''ab'']], [[2]])"
  by code_simp

subsection \<open>C3: chunks and decoded arrays of different number\<close>

text \<open>
  C3 (as amended). A different number of chunks and decoded arrays raises no error of
  its own: the loops pair them with \<open>zip\<close>, so arrays beyond the number of chunks are
  ignored, the windows of chunks beyond the number of arrays are never read, and on a
  well-formed chunk table (the first chunk starts a document, and there are no more
  start-of-document chunks than texts) \<open>predict\<close> and \<open>predict_proba\<close> return a result
  whatever the number of arrays.
\<close>

theorem mismatch_is_zipped:
  "predict X max_length config_max_length encoder_start arr_encoded
       (take (length arr_encoded) labels) =
     predict X max_length config_max_length encoder_start arr_encoded labels \<and>
   predict_proba classes max_length config_max_length encoder_start arr_encoded
       (take (length arr_encoded) batch_probas) =
     predict_proba classes max_length config_max_length encoder_start arr_encoded batch_probas \<and>
   (length enc' = length arr_encoded \<and>
    map first_token_id enc' = map first_token_id arr_encoded \<longrightarrow>
      (take (length labels) (map char_locs enc') = take (length labels) (map char_locs arr_encoded) \<longrightarrow>
         predict X max_length config_max_length encoder_start enc' labels =
         predict X max_length config_max_length encoder_start arr_encoded labels) \<and>
      (take (length batch_probas) (map tokens enc') =
         take (length batch_probas) (map tokens arr_encoded) \<longrightarrow>
         predict_proba classes max_length config_max_length encoder_start enc' batch_probas =
         predict_proba classes max_length config_max_length encoder_start arr_encoded batch_probas)) \<and>
   ((labels \<noteq> [] \<longrightarrow> arr_encoded \<noteq> [] \<longrightarrow> first_token_id (hd arr_encoded) = encoder_start) \<longrightarrow>
     length (filter (\<lambda>c. first_token_id c = encoder_start) arr_encoded) \<le> length X \<longrightarrow>
     (\<exists>r. predict X max_length config_max_length encoder_start arr_encoded labels = Inr r)) \<and>
   ((batch_probas \<noteq> [] \<longrightarrow> arr_encoded \<noteq> [] \<longrightarrow> first_token_id (hd arr_encoded) = encoder_start) \<longrightarrow>
     (\<exists>r. predict_proba classes max_length config_max_length encoder_start arr_encoded
            batch_probas = Inr r))"
  using predict_surplus_labels [of X max_length config_max_length encoder_start arr_encoded labels]
    predict_proba_surplus_probas [of classes max_length config_max_length encoder_start
      arr_encoded batch_probas]
    predict_surplus_chunks [of enc' arr_encoded labels X max_length config_max_length encoder_start]
    predict_proba_surplus_chunks [of enc' arr_encoded batch_probas classes max_length
      config_max_length encoder_start]
    predict_total [of labels arr_encoded encoder_start X max_length config_max_length]
    predict_proba_total [of batch_probas arr_encoded encoder_start classes max_length
      config_max_length]
  by simp

theorem mismatch_is_zipped_witness:
  "length [\<lparr>first_token_id = 0, tokens = [''a'', ''b''], char_locs = [9, 9]\<rparr>,
           \<lparr>first_token_id = 7, tokens = [''c'', ''d''], char_locs = [3, 4]\<rparr>] =
   length [\<lparr>first_token_id = 0, tokens = [''a'', ''b''], char_locs = [1, 2]\<rparr>,
           \<lparr>first_token_id = 7, tokens = [''c'', ''d''], char_locs = [3, 4]\<rparr>] \<and>
   length (filter (\<lambda>c. first_token_id c = 0)
          [\<lparr>first_token_id = 0, tokens = [''a'', ''b''], char_locs = [1, 2]\<rparr>,
           \<lparr>first_token_id = 7, tokens = [''c'', ''d''], char_locs = [3, 4]\<rparr>]) \<le> length [''abcd''] \<and>
   (\<exists>r. predict [''abcd''] (Some 5) 512 0
          [\<lparr>first_token_id = 0, tokens = [''a'', ''b''], char_locs = [1, 2]\<rparr>,
           \<lparr>first_token_id = 7, tokens = [''c'', ''d''], char_locs = [3, 4]\<rparr>]
          [[1, 1::nat]] = Inr r) \<and>
   (\<exists>r. predict_proba [''A''] (Some 5) 512 0
          [\<lparr>first_token_id = 0, tokens = [''a'', ''b''], char_locs = [1, 2]\<rparr>,
           \<lparr>first_token_id = 7, tokens = [''c'', ''d''], char_locs = [3, 4]\<rparr>]
          [[[1], [1::nat]]] = Inr r) \<and>
   predict_proba [''A''] (Some 5) 512 0
          [\<lparr>first_token_id = 0, tokens = [''a'', ''b''], char_locs = [9, 9]\<rparr>,
           \<lparr>first_token_id = 7, tokens = [''c'', ''d''], char_locs = [3, 4]\<rparr>]
          [[[1], [1::nat]]] =
   predict_proba [''A''] (Some 5) 512 0
          [\<lparr>first_token_id = 0, tokens = [''a'', ''b''], char_locs = [1, 2]\<rparr>,
           \<lparr>first_token_id = 7, tokens = [''c'', ''d''], char_locs = [3, 4]\<rparr>]
          [[[1], [1::nat]]] \<and>
   predict [''abcd''] (Some 5) 512 0
          [\<lparr>first_token_id = 0, tokens = [''a'', ''b''], char_locs = [1, 2]\<rparr>,
           \<lparr>first_token_id = 7, tokens = [''x'', ''y''], char_locs = [8, 9]\<rparr>]
          [[1, 1::nat]] =
   predict [''abcd''] (Some 5) 512 0
          [\<lparr>first_token_id = 0, tokens = [''a'', ''b''], char_locs = [1, 2]\<rparr>,
           \<lparr>first_token_id = 7, tokens = [''c'', ''d''], char_locs = [3, 4]\<rparr>]
          [[1, 1::nat]]"
  using mismatch_is_zipped [where X = "[''abcd'']" and max_length = "Some 5"
      and config_max_length = 512 and encoder_start = 0
      and arr_encoded = "[\<lparr>first_token_id = 0, tokens = [''a'', ''b''], char_locs = [1, 2]\<rparr>,
           \<lparr>first_token_id = 7, tokens = [''c'', ''d''], char_locs = [3, 4]\<rparr>]"
      and labels = "[[1, 1::nat]]" and classes = "[''A'']" and batch_probas = "[[[1], [1::nat]]]"
      and enc' = "[\<lparr>first_token_id = 0, tokens = [''a'', ''b''], char_locs = [9, 9]\<rparr>,
           \<lparr>first_token_id = 7, tokens = [''c'', ''d''], char_locs = [3, 4]\<rparr>]"]
    mismatch_is_zipped [where X = "[''abcd'']" and max_length = "Some 5"
      and config_max_length = 512 and encoder_start = 0
      and arr_encoded = "[\<lparr>first_token_id = 0, tokens = [''a'', ''b''], char_locs = [1, 2]\<rparr>,
           \<lparr>first_token_id = 7, tokens = [''c'', ''d''], char_locs = [3, 4]\<rparr>]"
      and labels = "[[1, 1::nat]]" and classes = "[''A'']" and batch_probas = "[[[1], [1::nat]]]"
      and enc' = "[\<lparr>first_token_id = 0, tokens = [''a'', ''b''], char_locs = [1, 2]\<rparr>,
           \<lparr>first_token_id = 7, tokens = [''x'', ''y''], char_locs = [8, 9]\<rparr>]"]
  by simp

text \<open>
  C3 as stated fails: with two chunks and one decoded array both functions return, and
  the document is lost without an error; with one chunk and two arrays the second array
  is ignored.
\<close>

theorem predict_mismatch_not_rejected:
  "length [[1, 1::nat]] \<noteq>
     length [\<lparr>first_token_id = 0, tokens = [''a'', ''b''], char_locs = [1, 2]\<rparr>,
             \<lparr>first_token_id = 7, tokens = [''c'', ''d''], char_locs = [3, 4]\<rparr>] \<and>
   predict [''abcd''] (Some 5) 512 0
     [\<lparr>first_token_id = 0, tokens = [''a'', ''b''], char_locs = [1, 2]\<rparr>,
      \<lparr>first_token_id = 7, tokens = [''c'', ''d''], char_locs = [3, 4]\<rparr>]
     [[1, 1::nat]] = Inr ([], []) \<and>
   predict_proba [''A''] (Some 5) 512 0
     [\<lparr>first_token_id = 0, tokens = [''a'', ''b''], char_locs = [1, 2]\<rparr>,
      \<lparr>first_token_id = 7, tokens = [''c'', ''d''], char_locs = [3, 4]\<rparr>]
     [[[1], [1::nat]]] = Inr [] \<and>
   predict [''ab''] None 512 0
     [\<lparr>first_token_id = 0, tokens = [''a'', ''b''], char_locs = [1, 2]\<rparr>]
     [[1, 1::nat], [2, 2]] = Inr ([[''ab'']], [[1]])"
  by code_simp

subsection \<open>C4: a step size of zero\<close>

text \<open>
  C4 (as amended). When \<open>(max_length - 2) // 3 = 0\<close> nothing is rejected: the loops run
  with a step size of zero, where a chunk that is not the last of its document
  contributes no token and the last chunk contributes all of its tokens, and on a
  well-formed chunk table \<open>predict\<close> and \<open>predict_proba\<close> return a result.
\<close>

theorem zero_step_windows:
  assumes "step_size (py_or max_length config_max_length) = 0"
  shows "select_window (step_size (py_or max_length config_max_length)) sod eod xs =
           (if eod then xs else []) \<and>
    ((labels \<noteq> [] \<longrightarrow> arr_encoded \<noteq> [] \<longrightarrow> first_token_id (hd arr_encoded) = encoder_start) \<longrightarrow>
     length (filter (\<lambda>c. first_token_id c = encoder_start) arr_encoded) \<le> length X \<longrightarrow>
     (\<exists>r. predict X max_length config_max_length encoder_start arr_encoded labels = Inr r)) \<and>
    ((batch_probas \<noteq> [] \<longrightarrow> arr_encoded \<noteq> [] \<longrightarrow> first_token_id (hd arr_encoded) = encoder_start) \<longrightarrow>
     (\<exists>r. predict_proba classes max_length config_max_length encoder_start arr_encoded
            batch_probas = Inr r))"
  using assms predict_total [of labels arr_encoded encoder_start X max_length config_max_length]
    predict_proba_total [of batch_probas arr_encoded encoder_start classes max_length config_max_length]
  by (simp add: select_window_zero)

theorem zero_step_windows_witness:
  "step_size (py_or (Some 4) 512) = 0 \<and>
   select_window (step_size (py_or (Some 4) 512)) True False ''ab'' = [] \<and>
   select_window (step_size (py_or (Some 4) 512)) False False ''ab'' = [] \<and>
   select_window (step_size (py_or (Some 4) 512)) False True ''cd'' = ''cd'' \<and>
   (\<exists>r. predict [''abcd''] (Some 4) 512 0
     [\<lparr>first_token_id = 0, tokens = [''a'', ''b''], char_locs = [1, 2]\<rparr>,
      \<lparr>first_token_id = 7, tokens = [''c'', ''d''], char_locs = [3, 4]\<rparr>]
     [[1, 1::nat], [1, 2]] = Inr r) \<and>
   (\<exists>r. predict_proba [''A''] (Some 4) 512 0
     [\<lparr>first_token_id = 0, tokens = [''a'', ''b''], char_locs = [1, 2]\<rparr>,
      \<lparr>first_token_id = 7, tokens = [''c'', ''d''], char_locs = [3, 4]\<rparr>]
     [[[1], [2]], [[3], [4::nat]]] = Inr r)"
proof -
  have h: "step_size (py_or (Some 4) 512) = 0" by code_simp
  note w = zero_step_windows [OF h, of _ _ _ "[[1, 1::nat], [1, 2]]"
      "[\<lparr>first_token_id = 0, tokens = [''a'', ''b''], char_locs = [1, 2]\<rparr>,
        \<lparr>first_token_id = 7, tokens = [''c'', ''d''], char_locs = [3, 4]\<rparr>]"
      0 "[''abcd'']" "[[[1], [2]], [[3], [4::nat]]]" "[''A'']"]
  from w [of True False "''ab''"] w [of False False "''ab''"] w [of False True "''cd''"] h
  show ?thesis by simp
qed

text \<open>
  C4 as stated fails for \<open>max_length = 4\<close>: the step size is zero and both functions
  return a result.
\<close>

theorem predict_zero_step_not_rejected:
  "(py_or (Some 4) 512 - 2) div 3 = 0 \<and>
   predict [''abcd''] (Some 4) 512 0
     [\<lparr>first_token_id = 0, tokens = [''a'', ''b''], char_locs = [1, 2]\<rparr>,
      \<lparr>first_token_id = 7, tokens = [''c'', ''d''], char_locs = [3, 4]\<rparr>]
     [[1, 1::nat], [1, 2]] = Inr ([[''abc'', ''d'']], [[1, 2]]) \<and>
   predict_proba [''A''] (Some 4) 512 0
     [\<lparr>first_token_id = 0, tokens = [''a'', ''b''], char_locs = [1, 2]\<rparr>,
      \<lparr>first_token_id = 7, tokens = [''c'', ''d''], char_locs = [3, 4]\<rparr>]
     [[[1], [2]], [[3], [4::nat]]] = Inr [[(''c'', [(''A'', 3)]), (''d'', [(''A'', 4)])]]"
  by code_simp

subsection \<open>C5: the merge example\<close>

text \<open>
  C5. For one chunk that is a whole document, with labels \<open>[A, A, B, B, B, A]\<close>
  (\<open>A\<close> and \<open>B\<close> different) at char locations \<open>[1, 2, 3, 4, 5, 6]\<close>, \<open>predict\<close> emits
  exactly three spans: the text of the characters \<open>[0, 2)\<close> with label \<open>A\<close>, of \<open>[2, 5)\<close>
  with label \<open>B\<close> and of \<open>[5, 6)\<close> with label \<open>A\<close>.
\<close>

theorem predict_merge_example:
  assumes "A \<noteq> B"
  shows "predict (doc # Xs) max_length config_max_length encoder_start
           [\<lparr>first_token_id = encoder_start, tokens = token_seq, char_locs = [1, 2, 3, 4, 5, 6]\<rparr>]
           [[A, A, B, B, B, A]] =
         Inr ([[py_slice doc 0 2, py_slice doc 2 5, py_slice doc 5 6]], [[A, B, A]])"
proof -
  have 1: "py_slice doc 0 1 @ py_slice doc 1 2 = py_slice doc 0 2"
    by (rule py_slice_append) simp_all
  have 2: "py_slice doc 2 3 @ py_slice doc 3 4 = py_slice doc 2 4"
    by (rule py_slice_append) simp_all
  have 3: "py_slice doc 2 4 @ py_slice doc 4 5 = py_slice doc 2 5"
    by (rule py_slice_append) simp_all
  show ?thesis
    using assms
    by (simp add: predict_def start_of_doc_def end_of_doc_def select_window_def
        stitch_token_def py_get_def 1 2 3)
qed

theorem predict_merge_example_witness:
  "(1::nat) \<noteq> 2 \<and>
   predict [''abcdef''] None 512 0
     [\<lparr>first_token_id = 0, tokens = [], char_locs = [1, 2, 3, 4, 5, 6]\<rparr>]
     [[1, 1, 2, 2, 2, 1::nat]] = Inr ([[''ab'', ''cde'', ''f'']], [[1, 2, 1]])"
proof -
  have h: "(1::nat) \<noteq> 2" by simp
  from predict_merge_example [OF h, of "''abcdef''" "[]" None 512 0 "[]"] h
  show ?thesis by (simp add: py_slice_def py_bound_def)
qed

subsection \<open>C6: the spans of a document\<close>




subsection \<open>C7: the texts of a document concatenated\<close>




subsection \<open>C8: one record per document\<close>

text \<open>
  C8 (as amended). When every chunk is paired with a decoded array and the first chunk
  starts a document, \<open>predict\<close> and \<open>predict_proba\<close> emit one record per
  start-of-document chunk, that is per document that has a chunk, in the order of the
  chunks: record \<open>k\<close> of \<open>predict\<close> is text \<open>k\<close> of the input stitched over the \<open>k\<close>-th
  group of windows, and it is empty when the group holds padding only. \<open>predict\<close>
  returns when there are no more start-of-document chunks than texts, \<open>predict_proba\<close>
  always.
\<close>

theorem one_record_per_chunked_document:
  assumes "arr_encoded \<noteq> [] \<longrightarrow> first_token_id (hd arr_encoded) = encoder_start"
  shows
   "(length arr_encoded \<le> length labels \<longrightarrow>
       (length (filter (\<lambda>c. first_token_id c = encoder_start) arr_encoded) \<le> length X \<longrightarrow>
          (\<exists>r. predict X max_length config_max_length encoder_start arr_encoded labels = Inr r)) \<and>
       (predict X max_length config_max_length encoder_start arr_encoded labels = Inr (subs, labs) \<longrightarrow>
          length subs = length (filter (\<lambda>c. first_token_id c = encoder_start) arr_encoded) \<and>
          length labs = length (filter (\<lambda>c. first_token_id c = encoder_start) arr_encoded) \<and>
          (\<forall>k<length subs.
             stitch_doc X (int k)
               (predict_windows max_length config_max_length encoder_start arr_encoded labels ! k) =
               Inr (subs ! k, labs ! k) \<and>
             (real_locs (predict_windows max_length config_max_length encoder_start
                          arr_encoded labels ! k) = [] \<longrightarrow>
                subs ! k = [] \<and> labs ! k = [])))) \<and>
    (length arr_encoded \<le> length batch_probas \<longrightarrow>
       predict_proba classes max_length config_max_length encoder_start arr_encoded batch_probas =
         Inr (map (map (token_dist classes))
               (predict_proba_windows max_length config_max_length encoder_start arr_encoded
                  batch_probas)) \<and>
       length (predict_proba_windows max_length config_max_length encoder_start arr_encoded
                 batch_probas) =
         length (filter (\<lambda>c. first_token_id c = encoder_start) arr_encoded))"
proof (intro conjI impI)
  assume "length arr_encoded \<le> length labels"
    and "length (filter (\<lambda>c. first_token_id c = encoder_start) arr_encoded) \<le> length X"
  then show "\<exists>r. predict X max_length config_max_length encoder_start arr_encoded labels = Inr r"
    using assms by (intro predict_total) simp_all
next
  let ?ws = "predict_windows max_length config_max_length encoder_start arr_encoded labels"
  assume len: "length arr_encoded \<le> length labels"
    and run: "predict X max_length config_max_length encoder_start arr_encoded labels = Inr (subs, labs)"
  from stitch_docs_nth [OF predict_stitch_docs [OF run]]
  have l: "length subs = length ?ws" "length labs = length ?ws" by simp_all
  with length_predict_windows [OF len assms]
  show "length subs = length (filter (\<lambda>c. first_token_id c = encoder_start) arr_encoded)"
    and "length labs = length (filter (\<lambda>c. first_token_id c = encoder_start) arr_encoded)"
    by simp_all
  show "\<forall>k<length subs.
          stitch_doc X (int k) (?ws ! k) = Inr (subs ! k, labs ! k) \<and>
          (real_locs (?ws ! k) = [] \<longrightarrow> subs ! k = [] \<and> labs ! k = [])"
  proof (intro allI impI)
    fix k assume k: "k < length subs"
    from predict_doc_record [OF run k] have doc: "stitch_doc X (int k) (?ws ! k) = Inr (subs ! k, labs ! k)" .
    moreover have "subs ! k = [] \<and> labs ! k = []" if "real_locs (?ws ! k) = []"
      using stitch_doc_padding [OF that, of X "int k"] doc by simp
    ultimately show "stitch_doc X (int k) (?ws ! k) = Inr (subs ! k, labs ! k) \<and>
          (real_locs (?ws ! k) = [] \<longrightarrow> subs ! k = [] \<and> labs ! k = [])"
      by blast
  qed
next
  assume "length arr_encoded \<le> length batch_probas"
  show "predict_proba classes max_length config_max_length encoder_start arr_encoded batch_probas =
         Inr (map (map (token_dist classes))
               (predict_proba_windows max_length config_max_length encoder_start arr_encoded
                  batch_probas))"
    using assms by (intro predict_proba_total) simp
next
  assume "length arr_encoded \<le> length batch_probas"
  then show "length (predict_proba_windows max_length config_max_length encoder_start arr_encoded
                 batch_probas) =
         length (filter (\<lambda>c. first_token_id c = encoder_start) arr_encoded)"
    using assms by (rule length_predict_proba_windows)
qed

theorem one_record_per_chunked_document_witness:
  "first_token_id (hd
     [\<lparr>first_token_id = 0, tokens = [''<s>'', ''ab'', ''cd'', ''</s>''], char_locs = [-1, 2, 4, -1]\<rparr>,
      \<lparr>first_token_id = 0, tokens = [''<s>'', ''</s>''], char_locs = [-1, -1]\<rparr>,
      \<lparr>first_token_id = 0, tokens = [''<s>'', ''pq'', ''</s>''], char_locs = [-1, 2, -1]\<rparr>]) = 0 \<and>
   predict [''abcd'', ''xy'', ''pq''] None 512 0
     [\<lparr>first_token_id = 0, tokens = [''<s>'', ''ab'', ''cd'', ''</s>''], char_locs = [-1, 2, 4, -1]\<rparr>,
      \<lparr>first_token_id = 0, tokens = [''<s>'', ''</s>''], char_locs = [-1, -1]\<rparr>,
      \<lparr>first_token_id = 0, tokens = [''<s>'', ''pq'', ''</s>''], char_locs = [-1, 2, -1]\<rparr>]
     [[0, 1, 2, 0], [0, 0], [0, 2, 0::nat]] =
     Inr ([[''ab'', ''cd''], [], [''pq'']], [[1, 2], [], [2]]) \<and>
   real_locs (predict_windows None 512 0
     [\<lparr>first_token_id = 0, tokens = [''<s>'', ''ab'', ''cd'', ''</s>''], char_locs = [-1, 2, 4, -1]\<rparr>,
      \<lparr>first_token_id = 0, tokens = [''<s>'', ''</s>''], char_locs = [-1, -1]\<rparr>,
      \<lparr>first_token_id = 0, tokens = [''<s>'', ''pq'', ''</s>''], char_locs = [-1, 2, -1]\<rparr>]
     [[0, 1, 2, 0], [0, 0], [0, 2, 0::nat]] ! 1) = [] \<and>
   length [[''ab'', ''cd''], [], [''pq'']] =
     length (filter (\<lambda>c. first_token_id c = 0)
     [\<lparr>first_token_id = 0, tokens = [''<s>'', ''ab'', ''cd'', ''</s>''], char_locs = [-1, 2, 4, -1]\<rparr>,
      \<lparr>first_token_id = 0, tokens = [''<s>'', ''</s>''], char_locs = [-1, -1]\<rparr>,
      \<lparr>first_token_id = 0, tokens = [''<s>'', ''pq'', ''</s>''], char_locs = [-1, 2, -1]\<rparr>]) \<and>
   length (predict_proba_windows None 512 0
     [\<lparr>first_token_id = 0, tokens = [''<s>'', ''ab'', ''cd'', ''</s>''], char_locs = [-1, 2, 4, -1]\<rparr>,
      \<lparr>first_token_id = 0, tokens = [''<s>'', ''</s>''], char_locs = [-1, -1]\<rparr>,
      \<lparr>first_token_id = 0, tokens = [''<s>'', ''pq'', ''</s>''], char_locs = [-1, 2, -1]\<rparr>]
     [[[0], [1], [2], [0]], [[0], [0]], [[0], [2], [0::nat]]]) = 3"
  (is "?first \<and> ?run \<and> ?pad \<and> ?count \<and> ?pcount")
proof -
  let ?enc = "[\<lparr>first_token_id = 0, tokens = [''<s>'', ''ab'', ''cd'', ''</s>''], char_locs = [-1, 2, 4, -1]\<rparr>,
      \<lparr>first_token_id = 0, tokens = [''<s>'', ''</s>''], char_locs = [-1, -1]\<rparr>,
      \<lparr>first_token_id = 0, tokens = [''<s>'', ''pq'', ''</s>''], char_locs = [-1, 2, -1]\<rparr>]"
  have first: ?first by simp
  then have h: "?enc \<noteq> [] \<longrightarrow> first_token_id (hd ?enc) = 0" by simp
  have run: ?run by code_simp
  have pad: ?pad by code_simp
  note t = one_record_per_chunked_document [OF h,
      where labels = "[[0, 1, 2, 0], [0, 0], [0, 2, 0::nat]]"
        and X = "[''abcd'', ''xy'', ''pq'']" and max_length = None and config_max_length = 512
        and subs = "[[''ab'', ''cd''], [], [''pq'']]" and labs = "[[1, 2], [], [2]]"
        and batch_probas = "[[[0], [1], [2], [0]], [[0], [0]], [[0], [2], [0::nat]]]"
        and classes = "[''A'']"]
  from t run have ?count by simp
  moreover from t have ?pcount by simp
  ultimately show ?thesis using first run pad by blast
qed

text \<open>
  C8 as stated fails when a document has no chunk: for two texts, the first empty and
  without a chunk, both functions return one record, and \<open>predict\<close> cuts it from the
  first text.
\<close>

theorem predict_drops_chunkless_document:
  "length ['''', ''ab''] = 2 \<and>
   predict ['''', ''ab''] None 512 0
     [\<lparr>first_token_id = 0, tokens = [''<s>'', ''a'', ''b'', ''</s>''], char_locs = [-1, 1, 2, -1]\<rparr>]
     [[0, 1, 1, 0::nat]] = Inr ([['''']], [[1]]) \<and>
   predict_proba [''A''] None 512 0
     [\<lparr>first_token_id = 0, tokens = [''<s>'', ''a'', ''b'', ''</s>''], char_locs = [-1, 1, 2, -1]\<rparr>]
     [[[0], [1], [1], [0::nat]]] =
     Inr [[(''<s>'', [(''A'', 0)]), (''a'', [(''A'', 1)]), (''b'', [(''A'', 1)]),
           (''</s>'', [(''A'', 0)])]]"
  by code_simp

subsection \<open>C9: one decode for both paths\<close>

text \<open>
  C9. The label sequence of the hard path and the distributions of the soft path are the
  two components of the same \<open>sequence_decode\<close> result for the same logits and
  transition matrix.
\<close>

theorem decode_shared:
  "(predict_op sequence_decode logits kwargs, predict_proba_op sequence_decode logits kwargs) =
     sequence_decode logits (kwargs ''transition_matrix'')"
  by (simp add: predict_op_def predict_proba_op_def split: prod.splits)

subsection \<open>C10: texts and labels in lockstep\<close>

text \<open>
  C10. The span-text list and the label list of the accumulator have the same length
  after every token, every iteration of the loop over the chunks keeps the two
  batch-level lists in lockstep, the loop starts in such a state, and so every record
  that \<open>predict\<close> emits has as many span texts as labels.
\<close>

theorem lists_grow_in_lockstep:
  "(paired acc \<longrightarrow> stitch_token X doc_idx acc t = Inr acc' \<longrightarrow> paired acc') \<and>
   (lockstep st \<longrightarrow> predict_chunk X step sod eod label_seq position_seq st = Inr st' \<longrightarrow>
      lockstep st') \<and>
   (lockstep st \<longrightarrow> predict_loop X step encoder_start arr_encoded chunk_idx zs st = Inr st'' \<longrightarrow>
      lockstep st'') \<and>
   lockstep ([], [], -1, None) \<and>
   (predict X max_length config_max_length encoder_start arr_encoded labels = Inr (subs, labs) \<longrightarrow>
      length subs = length labs \<and>
      (\<forall>k<length subs. length (subs ! k) = length (labs ! k)))"
proof (intro conjI impI)
  assume "paired acc" "stitch_token X doc_idx acc t = Inr acc'"
  then show "paired acc'" by (rule stitch_token_paired [rotated])
next
  assume "lockstep st" "predict_chunk X step sod eod label_seq position_seq st = Inr st'"
  then show "lockstep st'" by (rule predict_chunk_lockstep [rotated])
next
  assume "lockstep st" "predict_loop X step encoder_start arr_encoded chunk_idx zs st = Inr st''"
  then show "lockstep st''" by (rule predict_loop_lockstep [rotated])
next
  show init: "lockstep ([], [], -1, None)" by (simp add: lockstep_def paired_def)
  assume "predict X max_length config_max_length encoder_start arr_encoded labels = Inr (subs, labs)"
  then obtain di acc2 where "predict_loop X (step_size (py_or max_length config_max_length))
      encoder_start arr_encoded 0 (zip labels (map char_locs arr_encoded)) ([], [], -1, None) =
      Inr (subs, labs, di, acc2)"
    by (auto simp: predict_def split: sum.splits)
  from predict_loop_lockstep [OF this init]
  have l: "list_all2 (\<lambda>a b. length a = length b) subs labs" by (simp add: lockstep_def)
  then show "length subs = length labs" by (rule list_all2_lengthD)
  from l show "\<forall>k<length subs. length (subs ! k) = length (labs ! k)"
    by (simp add: list_all2_conv_all_nth)
qed

theorem lists_grow_in_lockstep_witness:
  "paired (Some ([''a''], [1::nat], 1)) \<and>
   stitch_token [''ab''] 0 (Some ([''a''], [1::nat], 1)) (2, 2) =
     Inr (Some ([''a'', ''b''], [1, 2], 2)) \<and>
   paired (Some ([''a'', ''b''], [1, 2::nat], 2)) \<and>
   lockstep ([], [], -1, None :: nat doc_acc) \<and>
   predict_chunk [''ab''] 170 True True [1, 2::nat] [1, 2] ([], [], -1, None) =
     Inr ([[''a'', ''b'']], [[1, 2]], 0, Some ([''a'', ''b''], [1, 2], 2)) \<and>
   lockstep ([[''a'', ''b'']], [[1, 2::nat]], 0, Some ([''a'', ''b''], [1, 2], 2)) \<and>
   predict [''ab''] None 512 0
     [\<lparr>first_token_id = 0, tokens = [''a'', ''b''], char_locs = [1, 2]\<rparr>]
     [[1, 2::nat]] = Inr ([[''a'', ''b'']], [[1, 2]]) \<and>
   length [[''a'', ''b'']] = length [[1, 2::nat]] \<and>
   length ([[''a'', ''b'']] ! 0) = length ([[1, 2::nat]] ! 0)"
  (is "?p1 \<and> ?tok \<and> ?p2 \<and> ?l0 \<and> ?chunk \<and> ?l1 \<and> ?run \<and> ?len \<and> ?all")
proof -
  have tok: ?tok by code_simp
  have chunk: ?chunk by code_simp
  have run: ?run by code_simp
  have p1: ?p1 by (simp add: paired_def)
  note t = lists_grow_in_lockstep [where acc = "Some ([''a''], [1::nat], 1)" and X = "[''ab'']"
      and doc_idx = 0 and t = "(2, 2)" and acc' = "Some ([''a'', ''b''], [1, 2], 2)"
      and st = "([], [], -1, None)" and step = 170 and sod = True and eod = True
      and label_seq = "[1, 2]" and position_seq = "[1, 2]"
      and st' = "([[''a'', ''b'']], [[1, 2]], 0, Some ([''a'', ''b''], [1, 2], 2))"
      and zs = "[]" and st'' = "([], [], -1, None)"
      and max_length = None and config_max_length = 512 and encoder_start = 0
      and arr_encoded = "[\<lparr>first_token_id = 0, tokens = [''a'', ''b''], char_locs = [1, 2]\<rparr>]"
      and labels = "[[1, 2]]" and subs = "[[''a'', ''b'']]" and labs = "[[1, 2]]"]
  from t p1 tok have p2: ?p2 by blast
  from t have l0: ?l0 by blast
  from t l0 chunk have l1: ?l1 by blast
  from t run have "?len \<and> (\<forall>k<length [[''a'', ''b'']].
      length ([[''a'', ''b'']] ! k) = length ([[1, 2::nat]] ! k))" by blast
  then have "?len \<and> ?all" by simp
  with p1 tok p2 l0 chunk l1 run show ?thesis by blast
qed

end
